theory Spec2Isabelle
  imports Main
begin

section \<open>JavaScript values\<close>

text \<open>
  Request and response bodies are JSON data, as the HTTP layer hands them over, plus
  JavaScript's \<open>undefined\<close>. An object is the list of its own properties, each key
  once, in the order \<open>Object.keys\<close> enumerates them. Numbers are kept abstract (type
  \<open>'n\<close>): the program only converts them to text, with \<open>Number::toString\<close>, which is a
  parameter of the model. Strings are lists of code units (below 256).
\<close>

datatype 'n json =
    JUndefined
  | JNull
  | JBool bool
  | JNum 'n
  | JStr string
  | JArr "'n json list"
  | JObj "(string \<times> 'n json) list"

text \<open>What the program can throw: a \<open>TypeError\<close> of the language, or whatever the
  injected transport function rejects with.\<close>

datatype error = TypeError | TransportError string

fun sequence :: "(error + 'a) list \<Rightarrow> error + 'a list" where
  "sequence [] = Inr []"
| "sequence (x # xs) =
     (case x of
        Inl e \<Rightarrow> Inl e
      | Inr v \<Rightarrow> (case sequence xs of Inl e \<Rightarrow> Inl e | Inr vs \<Rightarrow> Inr (v # vs)))"

fun join :: "string \<Rightarrow> string list \<Rightarrow> string" where
  "join sep [] = []"
| "join sep [x] = x"
| "join sep (x # y # ys) = x @ sep @ join sep (y # ys)"

text \<open>
  \<open>ToString\<close>, the conversion a template literal \<open>`${v}`\<close> and a computed property key
  apply. An array is joined with commas, \<open>null\<close> and \<open>undefined\<close> elements giving the
  empty text. A plain object gives \<open>[object Object]\<close> through the inherited
  \<open>toString\<close>; when the object has a property of its own named \<open>toString\<close> (in JSON
  data never a function) the inherited \<open>valueOf\<close> returns the object itself and the
  conversion throws \<open>TypeError\<close>.
\<close>

fun ToString :: "('n \<Rightarrow> string) \<Rightarrow> 'n json \<Rightarrow> error + string" where
  "ToString ns JUndefined = Inr ''undefined''"
| "ToString ns JNull = Inr ''null''"
| "ToString ns (JBool b) = Inr (if b then ''true'' else ''false'')"
| "ToString ns (JNum n) = Inr (ns n)"
| "ToString ns (JStr s) = Inr s"
| "ToString ns (JArr xs) =
     (case sequence (map (\<lambda>x. case x of
                                   JUndefined \<Rightarrow> Inr []
                                 | JNull \<Rightarrow> Inr []
                                 | _ \<Rightarrow> ToString ns x) xs) of
        Inl e \<Rightarrow> Inl e
      | Inr ss \<Rightarrow> Inr (join '','' ss))"
| "ToString ns (JObj kvs) =
     (if ''toString'' \<in> set (map fst kvs) then Inl TypeError else Inr ''[object Object]'')"

subsection \<open>lodash\<close>

text \<open>\<open>_.has(v, k)\<close> for the keys the converter asks for (\<open>ms\<close>, \<open>type\<close>, \<open>name\<close>,
  \<open>handle\<close>: neither an index nor \<open>length\<close>): only an object has them as own
  properties.\<close>

definition has :: "'n json \<Rightarrow> string \<Rightarrow> bool" where
  "has v k = (case v of JObj kvs \<Rightarrow> k \<in> set (map fst kvs) | _ \<Rightarrow> False)"

text \<open>Property read \<open>v.k\<close>; \<open>undefined\<close> when there is none.\<close>

definition property :: "'n json \<Rightarrow> string \<Rightarrow> 'n json" where
  "property v k =
     (case v of
        JObj kvs \<Rightarrow> (case map_of kvs k of Some x \<Rightarrow> x | None \<Rightarrow> JUndefined)
      | _ \<Rightarrow> JUndefined)"

definition isPlainObject :: "'n json \<Rightarrow> bool" where
  "isPlainObject v = (case v of JObj kvs \<Rightarrow> True | _ \<Rightarrow> False)"

fun decimal :: "nat \<Rightarrow> string" where
  "decimal n =
     (if n < 10 then [char_of (48 + n)]
      else decimal (n div 10) @ [char_of (48 + n mod 10)])"

declare decimal.simps [simp del]

text \<open>\<open>_.toPairs\<close>: the own enumerable properties as key-value pairs; an array and a
  string are array-like and enumerate their indices; other primitives have none.\<close>

definition toPairs :: "'n json \<Rightarrow> (string \<times> 'n json) list" where
  "toPairs v =
     (case v of
        JObj kvs \<Rightarrow> kvs
      | JArr xs \<Rightarrow> map (\<lambda>i. (decimal i, xs ! i)) [0 ..< length xs]
      | JStr cs \<Rightarrow> map (\<lambda>i. (decimal i, JStr [cs ! i])) [0 ..< length cs]
      | _ \<Rightarrow> [])"

section \<open>Regular expressions\<close>

text \<open>
  A regular expression of the source is modelled by its matcher at one position: given
  the text from that position on, the length of the match that starts there and the text
  of capture group 1 (empty when the expression has no group), or \<open>None\<close>.
  \<open>replace\<close> is \<open>String.prototype.replace\<close> with an expression without the \<open>g\<close> flag:
  the leftmost match is replaced, the text around it kept. \<open>test_re\<close> is
  \<open>RegExp.prototype.test\<close>.
\<close>

type_synonym regexp = "string \<Rightarrow> (nat \<times> string) option"

fun replace :: "regexp \<Rightarrow> (string \<Rightarrow> string) \<Rightarrow> string \<Rightarrow> string" where
  "replace re new [] = (case re [] of Some (n, g) \<Rightarrow> new g | None \<Rightarrow> [])"
| "replace re new (c # cs) =
     (case re (c # cs) of
        Some (n, g) \<Rightarrow> new g @ drop n (c # cs)
      | None \<Rightarrow> c # replace re new cs)"

fun test_re :: "regexp \<Rightarrow> string \<Rightarrow> bool" where
  "test_re re [] = (re [] \<noteq> None)"
| "test_re re (c # cs) = (re (c # cs) \<noteq> None \<or> test_re re cs)"

definition startsWith :: "string \<Rightarrow> string \<Rightarrow> bool" where
  "startsWith s p = (take (length p) s = p)"

text \<open>\<open>String.prototype.includes\<close>.\<close>

fun str_includes :: "string \<Rightarrow> string \<Rightarrow> bool" where
  "str_includes [] sub = (sub = [])"
| "str_includes (c # cs) sub = (startsWith (c # cs) sub \<or> str_includes cs sub)"

definition isDigit :: "char \<Rightarrow> bool" where
  "isDigit c = (c \<in> set ''0123456789'')"

text \<open>The line terminators among the code units below 256, which \<open>.\<close> does not match.\<close>

definition lineTerminator :: "char \<Rightarrow> bool" where
  "lineTerminator c = (c = CHR 0x0A \<or> c = CHR 0x0D)"

text \<open>\<^verbatim>\<open>/\/execute.*/\<close>: the greedy \<open>.*\<close> runs to the end of the line.\<close>

definition re_execute :: regexp where
  "re_execute s =
     (if startsWith s ''/execute''
      then Some (8 + length (takeWhile (\<lambda>c. \<not> lineTerminator c) (drop 8 s)), [])
      else None)"

text \<open>\<^verbatim>\<open>/\/element\/([^/]+)\/screenshot$/\<close>: the group takes every character up to the
  next slash (giving one back would leave a character that is not a slash where the
  slash of \<open>/screenshot\<close> is due), and \<open>$\<close> is the end of the text.\<close>

definition re_element_screenshot :: regexp where
  "re_element_screenshot s =
     (if startsWith s ''/element/''
      then (let rest = drop 9 s; g = takeWhile (\<lambda>c. c \<noteq> CHR ''/'') rest in
            if g \<noteq> [] \<and> drop (length g) rest = ''/screenshot''
            then Some (length s, g) else None)
      else None)"

text \<open>\<^verbatim>\<open>/\/screenshot\/([^/]+)/\<close>\<close>

definition re_screenshot :: regexp where
  "re_screenshot s =
     (if startsWith s ''/screenshot/''
      then (let g = takeWhile (\<lambda>c. c \<noteq> CHR ''/'') (drop 12 s) in
            if g \<noteq> [] then Some (12 + length g, g) else None)
      else None)"

text \<open>\<^verbatim>\<open>/\/window$/\<close>\<close>

definition re_window :: regexp where
  "re_window s = (if s = ''/window'' then Some (7, []) else None)"

text \<open>\<^verbatim>\<open>/\/window\/handle(s?)$/\<close>\<close>

definition re_window_slash_handle :: regexp where
  "re_window_slash_handle s =
     (if s = ''/window/handles'' then Some (15, ''s'')
      else if s = ''/window/handle'' then Some (14, [])
      else None)"

text \<open>\<^verbatim>\<open>/\/window_handle$/\<close>\<close>

definition re_window_handle :: regexp where
  "re_window_handle s = (if s = ''/window_handle'' then Some (14, []) else None)"

text \<open>\<^verbatim>\<open>/\/window_handles$/\<close>\<close>

definition re_window_handles :: regexp where
  "re_window_handles s = (if s = ''/window_handles'' then Some (15, []) else None)"

text \<open>\<^verbatim>\<open>/^\d+(?:[.,]\d*?)?$/.test\<close>: anchored at both ends; the digits are taken
  greedily (after fewer of them a digit follows, which is neither a separator nor the
  end), and the lazy \<open>\d*?\<close> has to reach the end of the text.\<close>

definition re_timeout_value :: "string \<Rightarrow> bool" where
  "re_timeout_value s =
     (let ds = takeWhile isDigit s; rest = dropWhile isDigit s in
      ds \<noteq> [] \<and>
      (case rest of
         [] \<Rightarrow> True
       | c # fs \<Rightarrow> (c = CHR ''.'' \<or> c = CHR '','') \<and> list_all isDigit fs))"

section \<open>The table of URL conflicts\<close>

record rule =
  commandNames :: "string list"
  jsonwpConverter :: "string \<Rightarrow> string"
  w3cConverter :: "string \<Rightarrow> string"

definition execute_rule :: rule where
  "execute_rule =
     \<lparr> commandNames = [''execute'', ''executeAsync''],
       jsonwpConverter = (\<lambda>url. replace re_execute
          (\<lambda>g. if str_includes url ''async'' then ''/execute_async'' else ''/execute'') url),
       w3cConverter = (\<lambda>url. replace re_execute
          (\<lambda>g. if str_includes url ''async'' then ''/execute/async'' else ''/execute/sync'') url) \<rparr>"

definition screenshot_rule :: rule where
  "screenshot_rule =
     \<lparr> commandNames = [''getElementScreenshot''],
       jsonwpConverter = (\<lambda>url. replace re_element_screenshot (\<lambda>g. ''/screenshot/'' @ g) url),
       w3cConverter = (\<lambda>url. replace re_screenshot
          (\<lambda>g. ''/element/'' @ g @ ''/screenshot'') url) \<rparr>"

definition window_rule :: rule where
  "window_rule =
     \<lparr> commandNames = [''getWindowHandles'', ''getWindowHandle''],
       jsonwpConverter = (\<lambda>url.
          if test_re re_window url
          then replace re_window (\<lambda>g. ''/window_handle'') url
          else replace re_window_slash_handle (\<lambda>g. ''/window_handle'' @ g) url),
       w3cConverter = (\<lambda>url.
          if test_re re_window_handle url
          then replace re_window_handle (\<lambda>g. ''/window'') url
          else replace re_window_handles (\<lambda>g. ''/window/handles'') url) \<rparr>"

definition COMMAND_URLS_CONFLICTS :: "rule list" where
  "COMMAND_URLS_CONFLICTS = [execute_rule, screenshot_rule, window_rule]"

section \<open>The protocol converter\<close>

text \<open>
  Modelled from the spec: \<open>BaseDriver.DRIVER_PROTOCOL\<close> (\<open>basedriver/driver\<close> is not
  among the sources) gives the two protocol constants \<open>MJSONWP\<close> (DialectA) and \<open>W3C\<close>
  (DialectB), distinct and truthy. The setter accepts any value: \<open>Unset\<close> stands for
  \<open>null\<close>, the constructor's value, and every other falsy value, \<open>Other\<close> for another
  truthy string.
\<close>

datatype protocol = Unset | MJSONWP | W3C | Other

record response =
  statusCode :: int

type_synonym 'n request = "string \<times> string \<times> 'n json"

text \<open>
  The collaborators of the converter. \<open>proxyFunc\<close> is the injected transport: it
  answers a request with a \<open>[response, resBody]\<close> pair or rejects, and its answer may
  depend on every request it was sent before.
  Modelled from the spec: \<open>util.safeJsonParse\<close> of \<open>appium-support\<close> is not among the
  sources; the defensive parse is any function from the body to the parsed value.
\<close>

record 'n env =
  Number_toString :: "'n \<Rightarrow> string"
  safeJsonParse :: "'n json \<Rightarrow> 'n json"
  proxyFunc :: "'n request list \<Rightarrow> 'n request \<Rightarrow> error + response \<times> 'n json"

text \<open>The state: the converter's field \<open>_downstreamProtocol\<close>, and the requests sent
  through the transport so far.\<close>

record 'n state =
  downstreamProtocol :: protocol
  calls :: "'n request list"

definition constructor :: "'n request list \<Rightarrow> 'n state" where
  "constructor sent = \<lparr> downstreamProtocol = Unset, calls = sent \<rparr>"

definition set_downstreamProtocol :: "protocol \<Rightarrow> 'n state \<Rightarrow> 'n state" where
  "set_downstreamProtocol v s = s\<lparr> downstreamProtocol := v \<rparr>"

text \<open>\<open>await this.proxyFunc(url, method, body)\<close>: the transport's answer, and the
  request recorded.\<close>

definition await_proxyFunc ::
  "'n env \<Rightarrow> string \<Rightarrow> string \<Rightarrow> 'n json \<Rightarrow> 'n state
     \<Rightarrow> (error + response \<times> 'n json) \<times> 'n state" where
  "await_proxyFunc E url method body s =
     (proxyFunc E (calls s) (url, method, body),
      s\<lparr> calls := calls s @ [(url, method, body)] \<rparr>)"

text \<open>What an operation settles with: an error, or the pair \<open>[response, resBody]\<close>,
  whose first component is \<open>None\<close> when it is \<open>undefined\<close>. \<open>settled\<close> is the result
  of an operation that returns a transport answer as it is.\<close>

type_synonym 'n result = "error + response option \<times> 'n json"

definition settled :: "error + response \<times> 'n json \<Rightarrow> 'n result" where
  "settled a = (case a of Inl e \<Rightarrow> Inl e | Inr (response, resBody) \<Rightarrow> Inr (Some response, resBody))"

text \<open>\<open>return await this.proxyFunc(url, method, body)\<close>\<close>

definition return_await_proxyFunc ::
  "'n env \<Rightarrow> string \<Rightarrow> string \<Rightarrow> 'n json \<Rightarrow> 'n state \<Rightarrow> 'n result \<times> 'n state" where
  "return_await_proxyFunc E url method body s =
     (case await_proxyFunc E url method body s of (a, s') \<Rightarrow> (settled a, s'))"

subsection \<open>getTimeoutRequestObjects\<close>

text \<open>
  The computed key \<open>[typeToW3C(body.type)]\<close> of the first branch is converted to a
  property key, that is to text; the filter of the second branch converts each value to
  text with a template literal. Both conversions are \<open>ToString\<close> and can throw.
\<close>

definition typeToW3C :: "'n json \<Rightarrow> 'n json" where
  "typeToW3C x = (if x = JStr ''page load'' then JStr ''pageLoad'' else x)"

definition typeToJSONWP :: "string \<Rightarrow> string" where
  "typeToJSONWP x = (if x = ''pageLoad'' then ''page load'' else x)"

text \<open>\<open>Array.prototype.filter\<close> with a predicate that may throw.\<close>

fun filter_throwing :: "('a \<Rightarrow> error + bool) \<Rightarrow> 'a list \<Rightarrow> error + 'a list" where
  "filter_throwing p [] = Inr []"
| "filter_throwing p (x # xs) =
     (case p x of
        Inl e \<Rightarrow> Inl e
      | Inr b \<Rightarrow>
          (case filter_throwing p xs of
             Inl e \<Rightarrow> Inl e
           | Inr ys \<Rightarrow> Inr (if b then x # ys else ys)))"

definition getTimeoutRequestObjects ::
  "'n env \<Rightarrow> 'n state \<Rightarrow> 'n json \<Rightarrow> error + 'n json list" where
  "getTimeoutRequestObjects E s body =
     (if downstreamProtocol s = W3C \<and> has body ''ms'' \<and> has body ''type'' then
        (case ToString (Number_toString E) (typeToW3C (property body ''type'')) of
           Inl e \<Rightarrow> Inl e
         | Inr key \<Rightarrow> Inr [JObj [(key, property body ''ms'')]])
      else if downstreamProtocol s = MJSONWP \<and> (\<not> has body ''ms'' \<or> \<not> has body ''type'') then
        (case filter_throwing
                (\<lambda>pair. case ToString (Number_toString E) (snd pair) of
                           Inl e \<Rightarrow> Inl e
                         | Inr t \<Rightarrow> Inr (re_timeout_value t))
                (toPairs body) of
           Inl e \<Rightarrow> Inl e
         | Inr pairs \<Rightarrow>
             Inr (map (\<lambda>pair. JObj [(''type'', JStr (typeToJSONWP (fst pair))),
                                    (''ms'', snd pair)]) pairs))
      else Inr [body])"

subsection \<open>proxySetTimeouts\<close>

text \<open>The \<open>for\<close> loop over the request objects; \<open>acc\<close> holds the variables
  \<open>response\<close> and \<open>resBody\<close>, both \<open>undefined\<close> before the first call. (The
  \<open>log.debug\<close> before the loop prints the objects with \<open>JSON.stringify\<close>, which does not
  throw on JSON data.)\<close>

fun proxySetTimeouts_loop ::
  "'n env \<Rightarrow> string \<Rightarrow> string \<Rightarrow> 'n json list \<Rightarrow> response option \<times> 'n json \<Rightarrow> 'n state
     \<Rightarrow> 'n result \<times> 'n state" where
  "proxySetTimeouts_loop E url method [] acc s = (Inr acc, s)"
| "proxySetTimeouts_loop E url method (timeoutObj # rest) acc s =
     (case await_proxyFunc E url method timeoutObj s of
        (Inl e, s') \<Rightarrow> (Inl e, s')
      | (Inr (response, resBody), s') \<Rightarrow>
          if downstreamProtocol s' \<noteq> MJSONWP then (Inr (Some response, resBody), s')
          else if statusCode response \<ge> 400 then (Inr (Some response, resBody), s')
          else proxySetTimeouts_loop E url method rest (Some response, resBody) s')"

definition proxySetTimeouts ::
  "'n env \<Rightarrow> string \<Rightarrow> string \<Rightarrow> 'n json \<Rightarrow> 'n state \<Rightarrow> 'n result \<times> 'n state" where
  "proxySetTimeouts E url method body s =
     (case getTimeoutRequestObjects E s body of
        Inl e \<Rightarrow> (Inl e, s)
      | Inr timeoutRequestObjects \<Rightarrow>
          proxySetTimeouts_loop E url method timeoutRequestObjects (None, JUndefined) s)"

subsection \<open>proxySetWindow\<close>

text \<open>The two \<open>log.debug\<close> calls build their message with a template literal, which
  converts the reassigned value to text before the transport is called.\<close>

definition proxySetWindow ::
  "'n env \<Rightarrow> string \<Rightarrow> string \<Rightarrow> 'n json \<Rightarrow> 'n state \<Rightarrow> 'n result \<times> 'n state" where
  "proxySetWindow E url method body s =
     (let bodyObj = safeJsonParse E body in
      if isPlainObject bodyObj \<and> downstreamProtocol s = W3C
         \<and> has bodyObj ''name'' \<and> \<not> has bodyObj ''handle'' then
        (case ToString (Number_toString E) (property bodyObj ''name'') of
           Inl e \<Rightarrow> (Inl e, s)
         | Inr message \<Rightarrow>
             return_await_proxyFunc E url method
               (JObj [(''handle'', property bodyObj ''name'')]) s)
      else if isPlainObject bodyObj \<and> downstreamProtocol s = MJSONWP
         \<and> has bodyObj ''handle'' \<and> \<not> has bodyObj ''name'' then
        (case ToString (Number_toString E) (property bodyObj ''handle'') of
           Inl e \<Rightarrow> (Inl e, s)
         | Inr message \<Rightarrow>
             return_await_proxyFunc E url method
               (JObj [(''name'', property bodyObj ''handle'')]) s)
      else return_await_proxyFunc E url method body s)"

subsection \<open>convertAndProxy\<close>

text \<open>The \<open>for\<close> loop over the table: \<open>Some\<close> is the URL of the \<open>return\<close> inside the
  loop, \<open>None\<close> the \<open>break\<close> or the end of the table. (The log messages of the loop
  print the URL and the protocol, which are strings.)\<close>

fun rewriteUrl :: "rule list \<Rightarrow> protocol \<Rightarrow> string \<Rightarrow> string \<Rightarrow> string option" where
  "rewriteUrl [] p commandName url = None"
| "rewriteUrl (r # rs) p commandName url =
     (if commandName \<notin> set (commandNames r) then rewriteUrl rs p commandName url
      else (let rewrittenUrl = (if p = MJSONWP then jsonwpConverter r url
                                else w3cConverter r url) in
            if rewrittenUrl = url then None else Some rewrittenUrl))"

definition convertAndProxy ::
  "'n env \<Rightarrow> string \<Rightarrow> string \<Rightarrow> string \<Rightarrow> 'n json \<Rightarrow> 'n state \<Rightarrow> 'n result \<times> 'n state" where
  "convertAndProxy E commandName url method body s =
     (if downstreamProtocol s = Unset then return_await_proxyFunc E url method body s
      else if commandName = ''timeouts'' then proxySetTimeouts E url method body s
      else if commandName = ''setWindow'' then proxySetWindow E url method body s
      else (case rewriteUrl COMMAND_URLS_CONFLICTS (downstreamProtocol s) commandName url of
              Some rewrittenUrl \<Rightarrow> return_await_proxyFunc E rewrittenUrl method body s
            | None \<Rightarrow> return_await_proxyFunc E url method body s))"

section \<open>Vocabulary of the specification\<close>

text \<open>
  The specification's words for the value filter of the timeout fan-out: an unsigned
  integer or decimal, that is digits, an optional single \<open>.\<close> or \<open>,\<close> separator, and
  optional trailing digits. \<open>re_timeout_value_spec\<close> below shows that the regular
  expression of the source accepts exactly these texts.
\<close>

definition unsigned_decimal :: "string \<Rightarrow> bool" where
  "unsigned_decimal t \<longleftrightarrow>
     (\<exists>ds fs. ds \<noteq> [] \<and> list_all isDigit ds \<and> list_all isDigit fs \<and>
        (t = ds \<or> t = ds @ ''.'' @ fs \<or> t = ds @ '','' @ fs))"

text \<open>The requests that sending the objects \<open>objs\<close> to \<open>url\<close> in sequence makes, and the
  transport's answer to the \<open>i\<close>-th of them (counted from 0) when the ones before it
  were sent, starting in state \<open>s\<close>.\<close>

definition requests :: "string \<Rightarrow> string \<Rightarrow> 'n json list \<Rightarrow> 'n request list" where
  "requests url method objs = map (\<lambda>obj. (url, method, obj)) objs"

definition answer ::
  "'n env \<Rightarrow> 'n state \<Rightarrow> string \<Rightarrow> string \<Rightarrow> 'n json list \<Rightarrow> nat
     \<Rightarrow> error + response \<times> 'n json" where
  "answer E s url method objs i =
     proxyFunc E (calls s @ requests url method (take i objs)) (url, method, objs ! i)"

text \<open>The URL transform of a rule for a dialect, as \<open>convertAndProxy\<close> selects it.\<close>

definition converter :: "protocol \<Rightarrow> rule \<Rightarrow> string \<Rightarrow> string" where
  "converter proto r = (if proto = MJSONWP then jsonwpConverter r else w3cConverter r)"

text \<open>
  A URL in a dialect's own shape for a command of the table: it ends in the path the
  dialect's transform produces, and the text before that path, \<open>p\<close>, holds nothing that
  the rule's expressions or the \<open>async\<close> test would pick up. DialectA is \<open>MJSONWP\<close>,
  DialectB is \<open>W3C\<close>; for \<open>getElementScreenshot\<close> the shapes are the ones the
  converters of the source produce (\<open>/screenshot/{id}\<close> for \<open>MJSONWP\<close>,
  \<open>/element/{id}/screenshot\<close> for \<open>W3C\<close>).
\<close>

inductive own_shape :: "protocol \<Rightarrow> string \<Rightarrow> string \<Rightarrow> bool" where
  execute_A:
    "c \<in> {''execute'', ''executeAsync''} \<Longrightarrow> \<not> str_includes p ''/execute'' \<Longrightarrow>
     \<not> str_includes p ''async'' \<Longrightarrow> own_shape MJSONWP c (p @ ''/execute'')"
| execute_async_A:
    "c \<in> {''execute'', ''executeAsync''} \<Longrightarrow> \<not> str_includes p ''/execute'' \<Longrightarrow>
     own_shape MJSONWP c (p @ ''/execute_async'')"
| execute_sync_B:
    "c \<in> {''execute'', ''executeAsync''} \<Longrightarrow> \<not> str_includes p ''/execute'' \<Longrightarrow>
     \<not> str_includes p ''async'' \<Longrightarrow> own_shape W3C c (p @ ''/execute/sync'')"
| execute_async_B:
    "c \<in> {''execute'', ''executeAsync''} \<Longrightarrow> \<not> str_includes p ''/execute'' \<Longrightarrow>
     own_shape W3C c (p @ ''/execute/async'')"
| screenshot_A:
    "el \<noteq> [] \<Longrightarrow> CHR ''/'' \<notin> set el \<Longrightarrow> el \<noteq> ''screenshot'' \<Longrightarrow>
     own_shape MJSONWP ''getElementScreenshot'' (p @ ''/screenshot/'' @ el)"
| screenshot_B:
    "el \<noteq> [] \<Longrightarrow> CHR ''/'' \<notin> set el \<Longrightarrow>
     \<not> str_includes (p @ ''/element/'' @ el @ ''/screenshot'') ''/screenshot/'' \<Longrightarrow>
     own_shape W3C ''getElementScreenshot'' (p @ ''/element/'' @ el @ ''/screenshot'')"
| window_handle_A:
    "c \<in> {''getWindowHandles'', ''getWindowHandle''} \<Longrightarrow>
     own_shape MJSONWP c (p @ ''/window_handle'')"
| window_handles_A:
    "c \<in> {''getWindowHandles'', ''getWindowHandle''} \<Longrightarrow>
     own_shape MJSONWP c (p @ ''/window_handles'')"
| window_B:
    "c \<in> {''getWindowHandles'', ''getWindowHandle''} \<Longrightarrow>
     own_shape W3C c (p @ ''/window'')"
| window_handles_B:
    "c \<in> {''getWindowHandles'', ''getWindowHandle''} \<Longrightarrow>
     own_shape W3C c (p @ ''/window/handles'')"

text \<open>
  A transport for the examples: numbers are naturals printed in decimal, the defensive
  parse leaves a structured body as it is, and the transport answers every request with
  status 200, except the second request it is sent, which it answers with status 400;
  the response body tells how many requests came before.
\<close>

definition example_env :: "nat env" where
  "example_env =
     \<lparr> Number_toString = decimal,
       safeJsonParse = (\<lambda>body. body),
       proxyFunc = (\<lambda>sent request.
          Inr (\<lparr> statusCode = (if length sent = 1 then 400 else 200) \<rparr>,
               JNum (length sent))) \<rparr>"

section \<open>Auxiliary lemmas\<close>

lemma not_digit_sep: "\<not> isDigit CHR ''.''" "\<not> isDigit CHR '',''"
  by (simp_all add: isDigit_def)

lemma takeWhile_digits_sep:
  assumes "list_all isDigit ds" "\<not> isDigit c"
  shows "takeWhile isDigit (ds @ c # fs) = ds" "dropWhile isDigit (ds @ c # fs) = c # fs"
  using assms by (simp_all add: list_all_iff)

lemma takeWhile_digits_all:
  assumes "list_all isDigit ds"
  shows "takeWhile isDigit ds = ds" "dropWhile isDigit ds = []"
  using assms by (simp_all add: list_all_iff)

lemma re_timeout_value_spec: "re_timeout_value t = unsigned_decimal t"
proof
  assume m: "re_timeout_value t"
  let ?ds = "takeWhile isDigit t" and ?rest = "dropWhile isDigit t"
  have split: "t = ?ds @ ?rest" by simp
  have ds: "?ds \<noteq> []" using m by (simp add: re_timeout_value_def Let_def)
  have ds': "list_all isDigit ?ds" by (auto simp: list_all_iff dest: set_takeWhileD)
  show "unsigned_decimal t"
  proof (cases ?rest)
    case Nil
    with split have "t = ?ds" by simp
    with ds ds' show ?thesis unfolding unsigned_decimal_def
      by (intro exI[of _ ?ds] exI[of _ "[]"]) simp
  next
    case (Cons c fs)
    with m have c: "c = CHR ''.'' \<or> c = CHR '',''" and fs: "list_all isDigit fs"
      by (simp_all add: re_timeout_value_def Let_def)
    from split Cons have "t = ?ds @ c # fs" by simp
    with c ds ds' fs show ?thesis unfolding unsigned_decimal_def
      by (intro exI[of _ ?ds] exI[of _ fs]) auto
  qed
next
  assume "unsigned_decimal t"
  then obtain ds fs where ds: "ds \<noteq> []" "list_all isDigit ds" and fs: "list_all isDigit fs"
    and t: "t = ds \<or> t = ds @ ''.'' @ fs \<or> t = ds @ '','' @ fs"
    unfolding unsigned_decimal_def by blast
  from t show "re_timeout_value t"
  proof (elim disjE)
    assume "t = ds"
    with ds show ?thesis
      by (simp add: re_timeout_value_def takeWhile_digits_all)
  next
    assume "t = ds @ ''.'' @ fs"
    with ds fs show ?thesis
      by (simp add: re_timeout_value_def takeWhile_digits_sep not_digit_sep)
  next
    assume "t = ds @ '','' @ fs"
    with ds fs show ?thesis
      by (simp add: re_timeout_value_def takeWhile_digits_sep not_digit_sep)
  qed
qed

lemma filter_throwing_total:
  assumes "\<forall>x \<in> set xs. \<exists>b. p x = Inr b"
  shows "filter_throwing p xs = Inr (filter (\<lambda>x. p x = Inr True) xs)"
  using assms by (induction xs) auto

lemma has_JObj: "has (JObj kvs) k = (k \<in> fst ` set kvs)"
  by (simp add: has_def)

lemma property_JObj: "map_of kvs k = Some v \<Longrightarrow> property (JObj kvs) k = v"
  by (simp add: property_def)


lemma return_await_proxyFunc_eq:
  "return_await_proxyFunc E url method body s =
     (settled (proxyFunc E (calls s) (url, method, body)),
      s\<lparr> calls := calls s @ [(url, method, body)] \<rparr>)"
  by (simp add: return_await_proxyFunc_def await_proxyFunc_def)

lemma proxySetTimeouts_loop_frame:
  "downstreamProtocol (snd (proxySetTimeouts_loop E url method objs acc s)) = downstreamProtocol s"
proof (induction objs arbitrary: acc s)
  case Nil
  show ?case by simp
next
  case (Cons obj rest)
  show ?case
    by (simp add: await_proxyFunc_def Cons.IH split: sum.split prod.split)
qed

lemma proxySetTimeouts_frame:
  "downstreamProtocol (snd (proxySetTimeouts E url method body s)) = downstreamProtocol s"
  by (simp add: proxySetTimeouts_def proxySetTimeouts_loop_frame split: sum.split)

lemma proxySetWindow_frame:
  "downstreamProtocol (snd (proxySetWindow E url method body s)) = downstreamProtocol s"
  by (simp add: proxySetWindow_def Let_def return_await_proxyFunc_eq split: sum.split)

lemma convertAndProxy_frame:
  "downstreamProtocol (snd (convertAndProxy E commandName url method body s)) = downstreamProtocol s"
  by (simp add: convertAndProxy_def return_await_proxyFunc_eq proxySetTimeouts_frame
      proxySetWindow_frame split: option.split)

lemma answer_0: "answer E s url method (obj # rest) 0 = proxyFunc E (calls s) (url, method, obj)"
  by (simp add: answer_def requests_def)

lemma answer_Suc:
  "answer E s url method (obj # rest) (Suc i) =
     answer E (s\<lparr> calls := calls s @ [(url, method, obj)] \<rparr>) url method rest i"
  by (simp add: answer_def requests_def)

lemma requests_Cons:
  "requests url method (obj # rest) = (url, method, obj) # requests url method rest"
  by (simp add: requests_def)

lemma loop_other_protocol:
  assumes "downstreamProtocol s \<noteq> MJSONWP"
  shows "proxySetTimeouts_loop E url method (obj # rest) acc s =
     (settled (proxyFunc E (calls s) (url, method, obj)),
      s\<lparr> calls := calls s @ [(url, method, obj)] \<rparr>)"
  using assms by (simp add: await_proxyFunc_def settled_def split: sum.split prod.split)

lemma loop_all_succeed:
  assumes "downstreamProtocol s = MJSONWP"
    and "\<forall>i < length objs. \<exists>r b. answer E s url method objs i = Inr (r, b) \<and> statusCode r < 400"
  shows "proxySetTimeouts_loop E url method objs acc s =
     (if objs = [] then Inr acc else settled (answer E s url method objs (length objs - 1)),
      s\<lparr> calls := calls s @ requests url method objs \<rparr>)"
  using assms
proof (induction objs arbitrary: acc s)
  case Nil
  show ?case by (simp add: requests_def)
next
  case (Cons obj rest)
  let ?s' = "s\<lparr> calls := calls s @ [(url, method, obj)] \<rparr>"
  from Cons.prems(2) obtain r b where first: "proxyFunc E (calls s) (url, method, obj) = Inr (r, b)"
    and ok: "statusCode r < 400"
    by (auto simp: answer_0 dest: spec[of _ 0])
  have rest: "\<forall>i < length rest. \<exists>r b. answer E ?s' url method rest i = Inr (r, b) \<and> statusCode r < 400"
    using Cons.prems(2) by (auto simp: answer_Suc [symmetric])
  have proto: "downstreamProtocol ?s' = MJSONWP" using Cons.prems(1) by simp
  have step: "proxySetTimeouts_loop E url method (obj # rest) acc s =
      proxySetTimeouts_loop E url method rest (Some r, b) ?s'"
    using Cons.prems(1) first ok by (simp add: await_proxyFunc_def settled_def)
  show ?case
  proof (cases rest)
    case Nil
    then show ?thesis
      using step first by (simp add: answer_0 settled_def requests_def)
  next
    case (Cons obj' rest')
    then have "length rest - 1 = length rest' " by simp
    with Cons.IH[OF proto rest, of "(Some r, b)"] step Cons show ?thesis
      by (simp add: requests_Cons answer_Suc)
  qed
qed

lemma loop_stops_at_failure:
  assumes "downstreamProtocol s = MJSONWP"
    and "k < length objs"
    and "\<forall>i < k. \<exists>r b. answer E s url method objs i = Inr (r, b) \<and> statusCode r < 400"
    and "answer E s url method objs k = Inr (r, b)" and "statusCode r \<ge> 400"
  shows "proxySetTimeouts_loop E url method objs acc s =
     (Inr (Some r, b), s\<lparr> calls := calls s @ requests url method (take (Suc k) objs) \<rparr>)"
  using assms
proof (induction objs arbitrary: acc s k)
  case Nil
  then show ?case by simp
next
  case (Cons obj rest)
  let ?s' = "s\<lparr> calls := calls s @ [(url, method, obj)] \<rparr>"
  show ?case
  proof (cases k)
    case 0
    with Cons.prems show ?thesis
      by (simp add: answer_0 await_proxyFunc_def settled_def requests_def)
  next
    case (Suc j)
    from Cons.prems(3) Suc obtain r0 b0 where first: "proxyFunc E (calls s) (url, method, obj) = Inr (r0, b0)"
      and ok: "statusCode r0 < 400"
      by (auto simp: answer_0 dest: spec[of _ 0])
    have step: "proxySetTimeouts_loop E url method (obj # rest) acc s =
        proxySetTimeouts_loop E url method rest (Some r0, b0) ?s'"
      using Cons.prems(1) first ok by (simp add: await_proxyFunc_def settled_def)
    have "proxySetTimeouts_loop E url method rest (Some r0, b0) ?s' =
        (Inr (Some r, b), ?s'\<lparr> calls := calls ?s' @ requests url method (take (Suc j) rest) \<rparr>)"
    proof (rule Cons.IH)
      show "downstreamProtocol ?s' = MJSONWP" using Cons.prems(1) by simp
      show "j < length rest" using Cons.prems(2) Suc by simp
      show "\<forall>i<j. \<exists>r b. answer E ?s' url method rest i = Inr (r, b) \<and> statusCode r < 400"
        using Cons.prems(3) Suc by (auto simp: answer_Suc [symmetric])
      show "answer E ?s' url method rest j = Inr (r, b)"
        using Cons.prems(4) Suc by (simp add: answer_Suc)
      show "400 \<le> statusCode r" by (rule Cons.prems(5))
    qed
    with step Suc show ?thesis by (simp add: requests_Cons)
  qed
qed

lemma getTimeoutRequestObjects_single:
  assumes "downstreamProtocol s \<noteq> MJSONWP" and "getTimeoutRequestObjects E s body = Inr objs"
  shows "\<exists>obj. objs = [obj]"
  using assms by (auto simp: getTimeoutRequestObjects_def split: if_splits sum.splits)

lemma replace_no_match:
  assumes "\<forall>q r. s = q @ r \<longrightarrow> re r = None"
  shows "replace re new s = s"
  using assms
proof (induction s)
  case Nil
  then show ?case by simp
next
  case (Cons c cs)
  from Cons.prems have here: "re (c # cs) = None" by (metis append_Nil)
  have "\<forall>q r. cs = q @ r \<longrightarrow> re r = None"
    using Cons.prems by (metis append_Cons)
  with Cons.IH here show ?case by simp
qed

lemma test_re_no_match:
  assumes "\<forall>q r. s = q @ r \<longrightarrow> re r = None"
  shows "\<not> test_re re s"
  using assms
proof (induction s)
  case Nil
  then show ?case by simp
next
  case (Cons c cs)
  from Cons.prems have here: "re (c # cs) = None" by (metis append_Nil)
  have "\<forall>q r. cs = q @ r \<longrightarrow> re r = None"
    using Cons.prems by (metis append_Cons)
  with Cons.IH here show ?case by simp
qed

lemma replace_first_match:
  assumes "\<forall>q r. p = q @ r \<and> r \<noteq> [] \<longrightarrow> re (r @ t) = None"
    and "re t = Some (n, g)"
  shows "replace re new (p @ t) = p @ new g @ drop n t"
  using assms(1)
proof (induction p)
  case Nil
  show ?case using assms(2) by (cases t) simp_all
next
  case (Cons c cs)
  from Cons.prems have here: "re ((c # cs) @ t) = None" by (metis append_Nil list.distinct(1))
  have "\<forall>q r. cs = q @ r \<and> r \<noteq> [] \<longrightarrow> re (r @ t) = None"
    using Cons.prems by (metis append_Cons)
  with Cons.IH here show ?case by simp
qed

lemma startsWith_iff: "startsWith s p \<longleftrightarrow> (\<exists>r. s = p @ r)"
  unfolding startsWith_def
  by (metis append_eq_conv_conj append_take_drop_id)

lemma str_includes_iff: "str_includes s sub \<longleftrightarrow> (\<exists>a b. s = a @ sub @ b)"
proof (induction s)
  case Nil
  show ?case by auto
next
  case (Cons c cs)
  show ?case
  proof
    assume "str_includes (c # cs) sub"
    then consider "startsWith (c # cs) sub" | "str_includes cs sub" by auto
    then show "\<exists>a b. c # cs = a @ sub @ b"
    proof cases
      case 1
      then show ?thesis by (metis startsWith_iff append_Nil)
    next
      case 2
      with Cons.IH obtain a b where "cs = a @ sub @ b" by blast
      then have "c # cs = (c # a) @ sub @ b" by simp
      then show ?thesis by blast
    qed
  next
    assume "\<exists>a b. c # cs = a @ sub @ b"
    then obtain a b where eq: "c # cs = a @ sub @ b" by blast
    show "str_includes (c # cs) sub"
    proof (cases a)
      case Nil
      with eq have "startsWith (c # cs) sub" by (simp add: startsWith_iff)
      then show ?thesis by simp
    next
      case (Cons x a')
      with eq have "cs = a' @ sub @ b" by simp
      with Cons.IH show ?thesis by auto
    qed
  qed
qed

text \<open>A word that starts with a slash and has no other cannot begin inside \<open>r\<close> and
  end beyond the slash that follows \<open>r\<close>.\<close>

lemma startsWith_straddle:
  assumes "r \<noteq> []" and "startsWith (r @ CHR ''/'' # t) (CHR ''/'' # w)" and "CHR ''/'' \<notin> set w"
  shows "startsWith r (CHR ''/'' # w)"
proof -
  from assms(2) obtain rest where eq: "r @ CHR ''/'' # t = (CHR ''/'' # w) @ rest"
    by (auto simp: startsWith_iff)
  from assms(1) obtain c r' where r: "r = c # r'" by (cases r) auto
  with eq have c: "c = CHR ''/''" and eq': "r' @ CHR ''/'' # t = w @ rest" by simp_all
  from eq' obtain us where "r' = w @ us \<and> us @ CHR ''/'' # t = rest \<or>
      r' @ us = w \<and> CHR ''/'' # t = us @ rest"
    using append_eq_append_conv2 [of r' "CHR ''/'' # t" w rest] by blast
  then show ?thesis
  proof
    assume "r' = w @ us \<and> us @ CHR ''/'' # t = rest"
    with r c show ?thesis by (simp add: startsWith_iff)
  next
    assume a: "r' @ us = w \<and> CHR ''/'' # t = us @ rest"
    show ?thesis
    proof (cases us)
      case Nil
      with a r c show ?thesis by (simp add: startsWith_iff)
    next
      case (Cons u us')
      with a have "u = CHR ''/''" by simp
      with a Cons have "CHR ''/'' \<in> set w" by auto
      with assms(3) show ?thesis by simp
    qed
  qed
qed

lemma last_n_eq:
  assumes "p @ a = q @ b" and "n \<le> length a" and "n \<le> length b"
  shows "drop (length a - n) a = drop (length b - n) b"
proof -
  have "drop (length (p @ a) - n) (p @ a) = drop (length a - n) a"
    using assms(2) by simp
  moreover have "drop (length (q @ b) - n) (q @ b) = drop (length b - n) b"
    using assms(3) by simp
  ultimately show ?thesis using assms(1) by simp
qed


lemma takeWhile_upto: "c \<notin> set g \<Longrightarrow> takeWhile (\<lambda>d. d \<noteq> c) (g @ c # t) = g"
  by (induction g) auto

lemma last_segment_eq:
  assumes "a @ CHR ''/'' # x = b @ CHR ''/'' # y" and "CHR ''/'' \<notin> set x" and "CHR ''/'' \<notin> set y"
  shows "a = b \<and> x = y"
proof -
  from assms(1) have "rev (a @ CHR ''/'' # x) = rev (b @ CHR ''/'' # y)" by simp
  then have eq: "rev x @ CHR ''/'' # rev a = rev y @ CHR ''/'' # rev b" by simp
  have "takeWhile (\<lambda>d. d \<noteq> CHR ''/'') (rev x @ CHR ''/'' # rev a) = rev x"
    by (rule takeWhile_upto) (simp add: assms(2))
  moreover have "takeWhile (\<lambda>d. d \<noteq> CHR ''/'') (rev y @ CHR ''/'' # rev b) = rev y"
    by (rule takeWhile_upto) (simp add: assms(3))
  ultimately have "rev x = rev y" using eq by simp
  then have "x = y" by simp
  with assms(1) show ?thesis by simp
qed

lemma re_element_screenshot_SomeD:
  assumes "re_element_screenshot s = Some (n, g)"
  shows "s = ''/element/'' @ g @ ''/screenshot'' \<and> g \<noteq> [] \<and> CHR ''/'' \<notin> set g \<and> n = length s"
proof -
  from assms have sw: "startsWith s ''/element/''"
    by (simp add: re_element_screenshot_def split: if_splits)
  then obtain r where s: "s = ''/element/'' @ r" by (auto simp: startsWith_iff)
  let ?g = "takeWhile (\<lambda>c. c \<noteq> CHR ''/'') r"
  from assms sw s have g: "g = ?g" and ne: "?g \<noteq> []" and rest: "drop (length ?g) r = ''/screenshot''"
    and n: "n = length s"
    by (auto simp: re_element_screenshot_def Let_def split: if_splits)
  have "r = ?g @ drop (length ?g) r" by (simp add: dropWhile_eq_drop [symmetric])
  with rest have "r = ?g @ ''/screenshot''" by metis
  moreover have "CHR ''/'' \<notin> set ?g" by (auto dest: set_takeWhileD)
  ultimately show ?thesis using s g ne n by simp
qed

lemma re_element_screenshot_match:
  assumes "g \<noteq> []" and "CHR ''/'' \<notin> set g"
  shows "re_element_screenshot (''/element/'' @ g @ ''/screenshot'') =
     Some (length (''/element/'' @ g @ ''/screenshot''), g)"
proof -
  have "takeWhile (\<lambda>c. c \<noteq> CHR ''/'') (g @ ''/screenshot'') = g"
    using takeWhile_upto [OF assms(2), of "''screenshot''"] by simp
  then show ?thesis
    using assms(1) by (simp add: re_element_screenshot_def startsWith_def)
qed

lemma jsonwpConverter_screenshot:
  assumes "g \<noteq> []" and "CHR ''/'' \<notin> set g"
  shows "jsonwpConverter screenshot_rule (p @ ''/element/'' @ g @ ''/screenshot'') =
     p @ ''/screenshot/'' @ g"
proof -
  let ?t = "''/element/'' @ g @ ''/screenshot''"
  have none: "\<forall>q r. p = q @ r \<and> r \<noteq> [] \<longrightarrow> re_element_screenshot (r @ ?t) = None"
  proof (intro allI impI, rule ccontr)
    fix q r assume pr: "p = q @ r \<and> r \<noteq> []" and "re_element_screenshot (r @ ?t) \<noteq> None"
    then obtain n g' where "re_element_screenshot (r @ ?t) = Some (n, g')" by auto
    from re_element_screenshot_SomeD[OF this]
    have eq: "r @ ?t = ''/element/'' @ g' @ ''/screenshot''" and g': "CHR ''/'' \<notin> set g'" by simp_all
    from eq have "(r @ ''/element'') @ CHR ''/'' # g = ''/element'' @ CHR ''/'' # g'" by simp
    from last_segment_eq[OF this assms(2) g'] have "r @ ''/element'' = ''/element''" by simp
    then have "r = []" by simp
    with pr show False by simp
  qed
  have "replace re_element_screenshot (\<lambda>g. ''/screenshot/'' @ g) (p @ ?t) =
      p @ (''/screenshot/'' @ g) @ drop (length ?t) ?t"
    by (rule replace_first_match[OF none re_element_screenshot_match[OF assms]])
  then show ?thesis by (simp add: screenshot_rule_def)
qed

lemma rewriteUrl_screenshot:
  "rewriteUrl COMMAND_URLS_CONFLICTS proto ''getElementScreenshot'' url =
     (let rewrittenUrl = (if proto = MJSONWP then jsonwpConverter screenshot_rule url
                          else w3cConverter screenshot_rule url) in
      if rewrittenUrl = url then None else Some rewrittenUrl)"
  by (simp add: COMMAND_URLS_CONFLICTS_def execute_rule_def screenshot_rule_def)

lemma str_includes_append_slash:
  assumes "CHR ''/'' \<notin> set sub"
  shows "str_includes (p @ CHR ''/'' # t) sub \<longleftrightarrow> str_includes p sub \<or> str_includes t sub"
proof
  assume "str_includes (p @ CHR ''/'' # t) sub"
  then obtain a b where eq: "p @ CHR ''/'' # t = a @ sub @ b"
    by (auto simp: str_includes_iff)
  then obtain us where "p = a @ us \<and> us @ CHR ''/'' # t = sub @ b \<or>
      p @ us = a \<and> CHR ''/'' # t = us @ sub @ b"
    using append_eq_append_conv2 [of p "CHR ''/'' # t" a "sub @ b"] by blast
  then show "str_includes p sub \<or> str_includes t sub"
  proof
    assume c2: "p = a @ us \<and> us @ CHR ''/'' # t = sub @ b"
    then obtain vs where "us = sub @ vs \<and> vs @ CHR ''/'' # t = b \<or>
        us @ vs = sub \<and> CHR ''/'' # t = vs @ b"
      using append_eq_append_conv2 [of us "CHR ''/'' # t" sub b] by blast
    then show ?thesis
    proof
      assume "us = sub @ vs \<and> vs @ CHR ''/'' # t = b"
      with c2 have "p = a @ sub @ vs" by simp
      then show ?thesis by (auto simp: str_includes_iff)
    next
      assume v: "us @ vs = sub \<and> CHR ''/'' # t = vs @ b"
      show ?thesis
      proof (cases vs)
        case Nil
        with v c2 have "p = a @ sub @ []" by simp
        then show ?thesis unfolding str_includes_iff by blast
      next
        case (Cons x xs)
        with v have "x = CHR ''/''" by simp
        with v Cons have "CHR ''/'' \<in> set sub" by auto
        with assms show ?thesis by simp
      qed
    qed
  next
    assume c1: "p @ us = a \<and> CHR ''/'' # t = us @ sub @ b"
    show ?thesis
    proof (cases us)
      case Nil
      with c1 have sb: "CHR ''/'' # t = sub @ b" by simp
      show ?thesis
      proof (cases sub)
        case Nil
        have "p = p @ [] @ []" by simp
        then have "str_includes p []" unfolding str_includes_iff by blast
        with Nil show ?thesis by simp
      next
        case (Cons x xs)
        with sb have "x = CHR ''/''" by simp
        with Cons assms show ?thesis by simp
      qed
    next
      case (Cons x xs)
      with c1 have "t = xs @ sub @ b" by simp
      then show ?thesis by (auto simp: str_includes_iff)
    qed
  qed
next
  assume "str_includes p sub \<or> str_includes t sub"
  then show "str_includes (p @ CHR ''/'' # t) sub"
  proof
    assume "str_includes p sub"
    then obtain a b where "p = a @ sub @ b" by (auto simp: str_includes_iff)
    then have "p @ CHR ''/'' # t = a @ sub @ (b @ CHR ''/'' # t)" by simp
    then show ?thesis unfolding str_includes_iff by blast
  next
    assume "str_includes t sub"
    then obtain a b where "t = a @ sub @ b" by (auto simp: str_includes_iff)
    then have "p @ CHR ''/'' # t = (p @ CHR ''/'' # a) @ sub @ b" by simp
    then show ?thesis unfolding str_includes_iff by blast
  qed
qed

lemma re_execute_startsWith: "re_execute s \<noteq> None \<Longrightarrow> startsWith s ''/execute''"
  by (simp add: re_execute_def split: if_splits)

lemma no_execute_before:
  assumes "\<not> str_includes p ''/execute''"
  shows "\<forall>q r. p = q @ r \<and> r \<noteq> [] \<longrightarrow> re_execute (r @ CHR ''/'' # t) = None"
proof (intro allI impI, rule ccontr)
  fix q r assume pr: "p = q @ r \<and> r \<noteq> []" and m: "re_execute (r @ CHR ''/'' # t) \<noteq> None"
  have "r \<noteq> []" using pr by simp
  moreover have "startsWith (r @ CHR ''/'' # t) (CHR ''/'' # ''execute'')"
    using re_execute_startsWith[OF m] by simp
  moreover have "CHR ''/'' \<notin> set ''execute''" by simp
  ultimately have "startsWith r (CHR ''/'' # ''execute'')"
    by (rule startsWith_straddle)
  then obtain r' where "r = ''/execute'' @ r'" unfolding startsWith_iff by auto
  with pr have "p = q @ ''/execute'' @ r'" by simp
  then have "str_includes p ''/execute''" unfolding str_includes_iff by blast
  with assms show False by simp
qed


lemma re_execute_line:
  assumes "\<forall>c \<in> set t. \<not> lineTerminator c"
  shows "re_execute (''/execute'' @ t) = Some (length (''/execute'' @ t), [])"
  using assms by (simp add: re_execute_def startsWith_def takeWhile_eq_all_conv [THEN iffD2])

lemma replace_execute:
  assumes "\<not> str_includes p ''/execute''" and "\<forall>c \<in> set t. \<not> lineTerminator c"
  shows "replace re_execute new (p @ ''/execute'' @ t) = p @ new []"
proof -
  have none: "\<forall>q r. p = q @ r \<and> r \<noteq> [] \<longrightarrow> re_execute (r @ ''/execute'' @ t) = None"
    using no_execute_before[OF assms(1), of "''execute'' @ t"] by simp
  from replace_first_match[OF none re_execute_line[OF assms(2)], of new]
  show ?thesis by simp
qed

lemma includes_async:
  "str_includes (p @ ''/execute_async'') ''async''"
  "str_includes (p @ ''/execute/async'') ''async''"
  "str_includes (p @ ''/execute'') ''async'' = str_includes p ''async''"
  "str_includes (p @ ''/execute/sync'') ''async'' = str_includes p ''async''"
  using str_includes_append_slash [of "''async''" p "''execute_async''"]
    str_includes_append_slash [of "''async''" p "''execute/async''"]
    str_includes_append_slash [of "''async''" p "''execute''"]
    str_includes_append_slash [of "''async''" p "''execute/sync''"]
  by (simp_all add: startsWith_def)

lemma replace_execute_shapes:
  assumes "\<not> str_includes p ''/execute''"
  shows "replace re_execute new (p @ ''/execute'') = p @ new []"
    and "replace re_execute new (p @ ''/execute_async'') = p @ new []"
    and "replace re_execute new (p @ ''/execute/sync'') = p @ new []"
    and "replace re_execute new (p @ ''/execute/async'') = p @ new []"
  using replace_execute [OF assms, of "[]" new]
    replace_execute [OF assms, of "''_async''" new]
    replace_execute [OF assms, of "''/sync''" new]
    replace_execute [OF assms, of "''/async''" new]
  by (simp_all add: lineTerminator_def)

lemma execute_rule_fixed:
  assumes "\<not> str_includes p ''/execute''"
  shows "\<not> str_includes p ''async'' \<Longrightarrow>
           jsonwpConverter execute_rule (p @ ''/execute'') = p @ ''/execute''"
    and "jsonwpConverter execute_rule (p @ ''/execute_async'') = p @ ''/execute_async''"
    and "\<not> str_includes p ''async'' \<Longrightarrow>
           w3cConverter execute_rule (p @ ''/execute/sync'') = p @ ''/execute/sync''"
    and "w3cConverter execute_rule (p @ ''/execute/async'') = p @ ''/execute/async''"
  by (simp_all add: execute_rule_def includes_async replace_execute_shapes [OF assms])

lemma re_screenshot_startsWith: "re_screenshot s \<noteq> None \<Longrightarrow> startsWith s ''/screenshot/''"
  by (simp add: re_screenshot_def split: if_splits)

lemma w3cConverter_screenshot_fixed:
  assumes "\<not> str_includes url ''/screenshot/''"
  shows "w3cConverter screenshot_rule url = url"
proof -
  have "\<forall>q r. url = q @ r \<longrightarrow> re_screenshot r = None"
  proof (intro allI impI, rule ccontr)
    fix q r assume url: "url = q @ r" and m: "re_screenshot r \<noteq> None"
    from re_screenshot_startsWith[OF m] obtain r' where "r = ''/screenshot/'' @ r'"
      unfolding startsWith_iff by auto
    with url have "url = q @ ''/screenshot/'' @ r'" by simp
    then have "str_includes url ''/screenshot/''" unfolding str_includes_iff by blast
    with assms show False by simp
  qed
  then show ?thesis
    by (simp add: screenshot_rule_def replace_no_match)
qed

lemma jsonwpConverter_screenshot_fixed:
  assumes "CHR ''/'' \<notin> set g" and "g \<noteq> ''screenshot''"
  shows "jsonwpConverter screenshot_rule (p @ ''/screenshot/'' @ g) = p @ ''/screenshot/'' @ g"
proof -
  have "\<forall>q r. p @ ''/screenshot/'' @ g = q @ r \<longrightarrow> re_element_screenshot r = None"
  proof (intro allI impI, rule ccontr)
    fix q r assume url: "p @ ''/screenshot/'' @ g = q @ r" and "re_element_screenshot r \<noteq> None"
    then obtain n g' where "re_element_screenshot r = Some (n, g')" by auto
    from re_element_screenshot_SomeD[OF this]
    have r: "r = ''/element/'' @ g' @ ''/screenshot''" by simp
    with url have "(p @ ''/screenshot'') @ CHR ''/'' # g = (q @ ''/element/'' @ g') @ CHR ''/'' # ''screenshot''"
      by simp
    from last_segment_eq[OF this assms(1)] have "g = ''screenshot''" by simp
    with assms(2) show False by simp
  qed
  then show ?thesis
    by (simp add: screenshot_rule_def replace_no_match)
qed

lemma window_no_match:
  assumes "n \<le> length a" and "n \<le> length lit"
    and "drop (length a - n) a \<noteq> drop (length lit - n) lit"
  shows "p @ a \<noteq> q @ lit"
  using last_n_eq [of p a q lit n] assms by blast

lemma no_suffix_literal:
  "p @ ''/window_handle'' \<noteq> q @ ''/window''"
  "p @ ''/window_handle'' \<noteq> q @ ''/window/handles''"
  "p @ ''/window_handle'' \<noteq> q @ ''/window/handle''"
  "p @ ''/window_handles'' \<noteq> q @ ''/window''"
  "p @ ''/window_handles'' \<noteq> q @ ''/window/handle''"
  "p @ ''/window'' \<noteq> q @ ''/window_handle''"
  "p @ ''/window'' \<noteq> q @ ''/window_handles''"
  "p @ ''/window/handles'' \<noteq> q @ ''/window_handle''"
  by (rule window_no_match [where n = 7]; simp)+

lemma no_suffix_literal':
  "p @ ''/window_handles'' \<noteq> q @ ''/window/handles''"
  "p @ ''/window/handles'' \<noteq> q @ ''/window_handles''"
  by (rule window_no_match [where n = 8]; simp)+

lemma window_fixed_jsonwp:
  "\<forall>q r. p @ ''/window_handle'' = q @ r \<longrightarrow> re_window r = None"
  "\<forall>q r. p @ ''/window_handle'' = q @ r \<longrightarrow> re_window_slash_handle r = None"
  "\<forall>q r. p @ ''/window_handles'' = q @ r \<longrightarrow> re_window r = None"
  "\<forall>q r. p @ ''/window_handles'' = q @ r \<longrightarrow> re_window_slash_handle r = None"
  using no_suffix_literal [of p] no_suffix_literal' [of p]
  by (auto simp: re_window_def re_window_slash_handle_def)

lemma window_fixed_w3c:
  "\<forall>q r. p @ ''/window'' = q @ r \<longrightarrow> re_window_handle r = None"
  "\<forall>q r. p @ ''/window'' = q @ r \<longrightarrow> re_window_handles r = None"
  "\<forall>q r. p @ ''/window/handles'' = q @ r \<longrightarrow> re_window_handle r = None"
  "\<forall>q r. p @ ''/window/handles'' = q @ r \<longrightarrow> re_window_handles r = None"
  using no_suffix_literal [of p] no_suffix_literal' [of p]
  by (auto simp: re_window_handle_def re_window_handles_def)

lemma window_rule_fixed:
  "jsonwpConverter window_rule (p @ ''/window_handle'') = p @ ''/window_handle''"
  "jsonwpConverter window_rule (p @ ''/window_handles'') = p @ ''/window_handles''"
  "w3cConverter window_rule (p @ ''/window'') = p @ ''/window''"
  "w3cConverter window_rule (p @ ''/window/handles'') = p @ ''/window/handles''"
  using window_fixed_jsonwp [of p] window_fixed_w3c [of p]
  by (simp_all add: window_rule_def test_re_no_match replace_no_match)

lemma rewriteUrl_fixed:
  assumes "\<forall>r \<in> set rules. commandName \<in> set (commandNames r) \<longrightarrow> converter proto r url = url"
  shows "rewriteUrl rules proto commandName url = None"
  using assms by (induction rules) (auto simp: converter_def Let_def)

lemma commandNames_simps:
  "commandNames execute_rule = [''execute'', ''executeAsync'']"
  "commandNames screenshot_rule = [''getElementScreenshot'']"
  "commandNames window_rule = [''getWindowHandles'', ''getWindowHandle'']"
  by (simp_all add: execute_rule_def screenshot_rule_def window_rule_def)

lemma table_ball:
  "(\<forall>r \<in> set COMMAND_URLS_CONFLICTS. P r) = (P execute_rule \<and> P screenshot_rule \<and> P window_rule)"
  by (simp add: COMMAND_URLS_CONFLICTS_def)

lemma own_shape_fixed:
  assumes "own_shape proto c url"
  shows "\<forall>r \<in> set COMMAND_URLS_CONFLICTS. c \<in> set (commandNames r) \<longrightarrow> converter proto r url = url"
  using assms
proof cases
  case (execute_A p)
  then have "jsonwpConverter execute_rule url = url"
    using execute_rule_fixed(1) [of p] by simp
  with execute_A(1,3) show ?thesis
    by (auto simp: table_ball commandNames_simps converter_def)
next
  case (execute_async_A p)
  then have "jsonwpConverter execute_rule url = url"
    using execute_rule_fixed(2) [of p] by simp
  with execute_async_A(1,3) show ?thesis
    by (auto simp: table_ball commandNames_simps converter_def)
next
  case (execute_sync_B p)
  then have "w3cConverter execute_rule url = url"
    using execute_rule_fixed(3) [of p] by simp
  with execute_sync_B(1,3) show ?thesis
    by (auto simp: table_ball commandNames_simps converter_def)
next
  case (execute_async_B p)
  then have "w3cConverter execute_rule url = url"
    using execute_rule_fixed(4) [of p] by simp
  with execute_async_B(1,3) show ?thesis
    by (auto simp: table_ball commandNames_simps converter_def)
next
  case (screenshot_A el p)
  then have "jsonwpConverter screenshot_rule url = url"
    using jsonwpConverter_screenshot_fixed [of el p] by simp
  with screenshot_A(1,2) show ?thesis
    by (simp add: table_ball commandNames_simps converter_def)
next
  case (screenshot_B el p)
  then have "w3cConverter screenshot_rule url = url"
    using w3cConverter_screenshot_fixed [of url] by simp
  with screenshot_B(1,2) show ?thesis
    by (simp add: table_ball commandNames_simps converter_def)
next
  case (window_handle_A p)
  then have "jsonwpConverter window_rule url = url"
    using window_rule_fixed(1) [of p] by simp
  with window_handle_A(1,3) show ?thesis
    by (auto simp: table_ball commandNames_simps converter_def)
next
  case (window_handles_A p)
  then have "jsonwpConverter window_rule url = url"
    using window_rule_fixed(2) [of p] by simp
  with window_handles_A(1,3) show ?thesis
    by (auto simp: table_ball commandNames_simps converter_def)
next
  case (window_B p)
  then have "w3cConverter window_rule url = url"
    using window_rule_fixed(3) [of p] by simp
  with window_B(1,3) show ?thesis
    by (auto simp: table_ball commandNames_simps converter_def)
next
  case (window_handles_B p)
  then have "w3cConverter window_rule url = url"
    using window_rule_fixed(4) [of p] by simp
  with window_handles_B(1,3) show ?thesis
    by (auto simp: table_ball commandNames_simps converter_def)
qed

lemma own_shape_command:
  assumes "own_shape proto c url"
  shows "proto \<noteq> Unset \<and> c \<noteq> ''timeouts'' \<and> c \<noteq> ''setWindow''"
  using assms by cases auto

lemma proxySetWindow_forwards:
  assumes "safeJsonParse E body = JObj kvs"
  shows "downstreamProtocol s = W3C \<Longrightarrow> map_of kvs ''name'' = Some v \<Longrightarrow>
           ''handle'' \<notin> fst ` set kvs \<Longrightarrow> ToString (Number_toString E) v = Inr text \<Longrightarrow>
           proxySetWindow E url method body s =
             (settled (proxyFunc E (calls s) (url, method, JObj [(''handle'', v)])),
              s\<lparr> calls := calls s @ [(url, method, JObj [(''handle'', v)])] \<rparr>)"
    and "downstreamProtocol s = MJSONWP \<Longrightarrow> map_of kvs ''handle'' = Some v \<Longrightarrow>
           ''name'' \<notin> fst ` set kvs \<Longrightarrow> ToString (Number_toString E) v = Inr text \<Longrightarrow>
           proxySetWindow E url method body s =
             (settled (proxyFunc E (calls s) (url, method, JObj [(''name'', v)])),
              s\<lparr> calls := calls s @ [(url, method, JObj [(''name'', v)])] \<rparr>)"
    and "\<not> (downstreamProtocol s = W3C \<and> ''name'' \<in> fst ` set kvs \<and> ''handle'' \<notin> fst ` set kvs) \<Longrightarrow>
         \<not> (downstreamProtocol s = MJSONWP \<and> ''handle'' \<in> fst ` set kvs \<and> ''name'' \<notin> fst ` set kvs) \<Longrightarrow>
           proxySetWindow E url method body s =
             (settled (proxyFunc E (calls s) (url, method, body)),
              s\<lparr> calls := calls s @ [(url, method, body)] \<rparr>)"
proof -
  have in_dom: "map_of kvs k = Some v \<Longrightarrow> k \<in> fst ` set kvs" for k
    by (auto dest!: map_of_SomeD intro: rev_image_eqI)
  show "downstreamProtocol s = W3C \<Longrightarrow> map_of kvs ''name'' = Some v \<Longrightarrow>
      ''handle'' \<notin> fst ` set kvs \<Longrightarrow> ToString (Number_toString E) v = Inr text \<Longrightarrow>
      proxySetWindow E url method body s =
        (settled (proxyFunc E (calls s) (url, method, JObj [(''handle'', v)])),
         s\<lparr> calls := calls s @ [(url, method, JObj [(''handle'', v)])] \<rparr>)"
    using assms in_dom [of "''name''"]
    by (simp add: proxySetWindow_def Let_def isPlainObject_def has_JObj property_JObj return_await_proxyFunc_eq)
  show "downstreamProtocol s = MJSONWP \<Longrightarrow> map_of kvs ''handle'' = Some v \<Longrightarrow>
      ''name'' \<notin> fst ` set kvs \<Longrightarrow> ToString (Number_toString E) v = Inr text \<Longrightarrow>
      proxySetWindow E url method body s =
        (settled (proxyFunc E (calls s) (url, method, JObj [(''name'', v)])),
         s\<lparr> calls := calls s @ [(url, method, JObj [(''name'', v)])] \<rparr>)"
    using assms in_dom [of "''handle''"]
    by (simp add: proxySetWindow_def Let_def isPlainObject_def has_JObj property_JObj return_await_proxyFunc_eq)
  show "\<not> (downstreamProtocol s = W3C \<and> ''name'' \<in> fst ` set kvs \<and> ''handle'' \<notin> fst ` set kvs) \<Longrightarrow>
      \<not> (downstreamProtocol s = MJSONWP \<and> ''handle'' \<in> fst ` set kvs \<and> ''name'' \<notin> fst ` set kvs) \<Longrightarrow>
      proxySetWindow E url method body s =
        (settled (proxyFunc E (calls s) (url, method, body)),
         s\<lparr> calls := calls s @ [(url, method, body)] \<rparr>)"
    using assms
    by (auto simp: proxySetWindow_def Let_def isPlainObject_def has_JObj return_await_proxyFunc_eq)
qed

lemma proxySetWindow_opaque:
  assumes "\<not> isPlainObject (safeJsonParse E body)"
  shows "proxySetWindow E url method body s =
     (settled (proxyFunc E (calls s) (url, method, body)),
      s\<lparr> calls := calls s @ [(url, method, body)] \<rparr>)"
  using assms by (simp add: proxySetWindow_def Let_def return_await_proxyFunc_eq)

text \<open>
  The timeout fan-out where every value has a text: the request objects are the entries
  whose text is an unsigned integer or decimal, in the body's order, and with none of
  them nothing is sent. Where a value has no text, \<open>getTimeoutRequestObjects\<close> throws
  (\<open>getTimeoutRequestObjects_no_text\<close>).
\<close>

lemma getTimeoutRequestObjects_MJSONWP:
  assumes "downstreamProtocol s = MJSONWP"
    and "''ms'' \<notin> fst ` set kvs \<or> ''type'' \<notin> fst ` set kvs"
    and "\<forall>(k, v) \<in> set kvs. \<exists>t. ToString (Number_toString E) v = Inr t"
  shows "getTimeoutRequestObjects E s (JObj kvs) =
     Inr (map (\<lambda>(k, v). JObj [(''type'', JStr (if k = ''pageLoad'' then ''page load'' else k)),
                               (''ms'', v)])
            (filter (\<lambda>(k, v). \<exists>t. ToString (Number_toString E) v = Inr t \<and> unsigned_decimal t)
               kvs))"
proof -
  let ?p = "\<lambda>pair. case ToString (Number_toString E) (snd pair) of
                      Inl e \<Rightarrow> Inl e | Inr t \<Rightarrow> Inr (re_timeout_value t)"
  let ?mk = "\<lambda>pair. JObj [(''type'', JStr (typeToJSONWP (fst pair))), (''ms'', snd pair)]"
  let ?keep = "\<lambda>(k, v). \<exists>t. ToString (Number_toString E) v = Inr t \<and> unsigned_decimal t"
  have total: "\<forall>x \<in> set kvs. \<exists>b. ?p x = Inr b"
    using assms(3) by fastforce
  have same: "(\<lambda>x. ?p x = Inr True) = ?keep"
    by (auto simp: fun_eq_iff re_timeout_value_spec split: sum.splits)
  have kept: "filter_throwing ?p kvs = Inr (filter ?keep kvs)"
    using filter_throwing_total[OF total] unfolding same .
  have "getTimeoutRequestObjects E s (JObj kvs) =
      (case filter_throwing ?p kvs of Inl e \<Rightarrow> Inl e | Inr pairs \<Rightarrow> Inr (map ?mk pairs))"
    using assms(1,2) by (simp add: getTimeoutRequestObjects_def has_JObj toPairs_def)
  also have "\<dots> = Inr (map ?mk (filter ?keep kvs))"
    by (simp only: kept sum.case)
  also have "map ?mk (filter ?keep kvs) =
      map (\<lambda>(k, v). JObj [(''type'', JStr (if k = ''pageLoad'' then ''page load'' else k)),
                          (''ms'', v)]) (filter ?keep kvs)"
    by (rule map_cong) (auto simp: typeToJSONWP_def)
  finally show ?thesis .
qed

lemma getTimeoutRequestObjects_MJSONWP_example:
  "getTimeoutRequestObjects example_env \<lparr> downstreamProtocol = MJSONWP, calls = [] \<rparr>
     (JObj [(''script'', JStr ''1000''), (''pageLoad'', JStr ''2000.5''),
            (''implicit'', JStr ''abc'')]) =
   Inr [JObj [(''type'', JStr ''script''), (''ms'', JStr ''1000'')],
        JObj [(''type'', JStr ''page load''), (''ms'', JStr ''2000.5'')]]"
  using getTimeoutRequestObjects_MJSONWP [of "\<lparr> downstreamProtocol = MJSONWP, calls = [] \<rparr>"
      "[(''script'', JStr ''1000''), (''pageLoad'', JStr ''2000.5''), (''implicit'', JStr ''abc'')]"
      example_env]
  by (simp add: re_timeout_value_spec [symmetric] re_timeout_value_def isDigit_def)

lemma proxySetTimeouts_nothing_to_send:
  assumes "downstreamProtocol s = MJSONWP"
    and "\<not> has body ''ms'' \<or> \<not> has body ''type''"
    and "\<forall>(k, v) \<in> set (toPairs body).
           \<exists>t. ToString (Number_toString E) v = Inr t \<and> \<not> unsigned_decimal t"
  shows "getTimeoutRequestObjects E s body = Inr []
     \<and> proxySetTimeouts E url method body s = (Inr (None, JUndefined), s)"
proof -
  let ?p = "\<lambda>pair. case ToString (Number_toString E) (snd pair) of
                      Inl e \<Rightarrow> Inl e | Inr t \<Rightarrow> Inr (re_timeout_value t)"
  have total: "\<forall>x \<in> set (toPairs body). \<exists>b. ?p x = Inr b"
    using assms(3) by fastforce
  have none: "filter (\<lambda>x. ?p x = Inr True) (toPairs body) = []"
    using assms(3) by (auto simp: filter_empty_conv re_timeout_value_spec split: sum.splits)
  have "filter_throwing ?p (toPairs body) = Inr []"
    using filter_throwing_total[OF total] unfolding none .
  then have objs: "getTimeoutRequestObjects E s body = Inr []"
    using assms(1,2) by (simp add: getTimeoutRequestObjects_def)
  then show ?thesis
    by (simp add: proxySetTimeouts_def)
qed

lemma proxySetTimeouts_nothing_to_send_example:
  "getTimeoutRequestObjects example_env \<lparr> downstreamProtocol = MJSONWP, calls = [] \<rparr>
      (JObj [(''implicit'', JStr ''abc''), (''script'', JNull)]) = Inr []
   \<and> proxySetTimeouts example_env ''/session/abc/timeouts'' ''POST''
      (JObj [(''implicit'', JStr ''abc''), (''script'', JNull)])
      \<lparr> downstreamProtocol = MJSONWP, calls = [] \<rparr> =
     (Inr (None, JUndefined), \<lparr> downstreamProtocol = MJSONWP, calls = [] \<rparr>)"
  using proxySetTimeouts_nothing_to_send [of "\<lparr> downstreamProtocol = MJSONWP, calls = [] \<rparr>"
      "JObj [(''implicit'', JStr ''abc''), (''script'', JNull)]" example_env
      "''/session/abc/timeouts''" "''POST''"]
  by (simp add: has_def toPairs_def re_timeout_value_spec [symmetric] re_timeout_value_def
      isDigit_def)

lemma sequence_Inl: "sequence xs = Inl e \<Longrightarrow> Inl e \<in> set xs"
proof (induction xs)
  case Nil
  then show ?case by simp
next
  case (Cons x xs)
  show ?case
  proof (cases x)
    case (Inl e')
    with Cons.prems show ?thesis by simp
  next
    case (Inr v)
    with Cons.prems have "sequence xs = Inl e" by (simp split: sum.splits)
    with Cons.IH show ?thesis by simp
  qed
qed

lemma ToString_error: "ToString ns v = Inl e \<Longrightarrow> e = TypeError"
proof (induction ns v rule: ToString.induct)
  case (6 ns xs)
  let ?f = "\<lambda>x. case x of JUndefined \<Rightarrow> Inr [] | JNull \<Rightarrow> Inr [] | _ \<Rightarrow> ToString ns x"
  from "6.prems" have "sequence (map ?f xs) = Inl e" by (simp split: sum.splits)
  then have "Inl e \<in> set (map ?f xs)" by (rule sequence_Inl)
  then obtain x where x: "x \<in> set xs" and fx: "?f x = Inl e" by auto
  from fx have ts: "ToString ns x = Inl e" by (cases x) simp_all
  show ?case using "6.IH" [OF x] ts fx by (cases x) auto
next
  case (7 ns kvs)
  then show ?case by (simp split: if_splits)
qed simp_all

lemma filter_throwing_TypeError:
  assumes "x \<in> set xs" and "p x = Inl e"
    and "\<forall>y \<in> set xs. \<forall>e'. p y = Inl e' \<longrightarrow> e' = TypeError"
  shows "filter_throwing p xs = Inl TypeError"
  using assms
proof (induction xs)
  case Nil
  then show ?case by simp
next
  case (Cons a xs)
  show ?case
  proof (cases "p a")
    case (Inl e')
    with Cons.prems(3) have "e' = TypeError" by simp
    with Inl show ?thesis by simp
  next
    case (Inr b)
    with Cons.prems(1,2) have "x \<in> set xs" by auto
    moreover have "\<forall>y \<in> set xs. \<forall>e'. p y = Inl e' \<longrightarrow> e' = TypeError"
      using Cons.prems(3) by simp
    ultimately have "filter_throwing p xs = Inl TypeError"
      using Cons.IH Cons.prems(2) by blast
    with Inr show ?thesis by simp
  qed
qed

lemma getTimeoutRequestObjects_no_text:
  assumes "downstreamProtocol s = MJSONWP"
    and "\<not> has body ''ms'' \<or> \<not> has body ''type''"
    and "(k, v) \<in> set (toPairs body)" and "ToString (Number_toString E) v = Inl e"
  shows "getTimeoutRequestObjects E s body = Inl TypeError"
proof -
  let ?p = "\<lambda>pair. case ToString (Number_toString E) (snd pair) of
                      Inl e \<Rightarrow> Inl e | Inr t \<Rightarrow> Inr (re_timeout_value t)"
  have here: "?p (k, v) = Inl e" using assms(4) by simp
  have only: "\<forall>y \<in> set (toPairs body). \<forall>e'. ?p y = Inl e' \<longrightarrow> e' = TypeError"
    by (auto split: sum.splits dest: ToString_error)
  have "filter_throwing ?p (toPairs body) = Inl TypeError"
    by (rule filter_throwing_TypeError [OF assms(3) here only])
  then show ?thesis
    using assms(1,2) by (simp add: getTimeoutRequestObjects_def)
qed


section \<open>The claims\<close>

text \<open>
  Claim C1, as amended. For the command \<open>getElementScreenshot\<close> with active dialect
  DialectA (\<open>MJSONWP\<close>), \<open>convertAndProxy\<close> rewrites a URL of the form
  \<open>.../session/abc/element/123/screenshot\<close> to \<open>.../session/abc/screenshot/123\<close> and
  sends the rewritten URL, with the method and the body unchanged, to the transport, in
  one call. (The claim names DialectB; against DialectB the URL of the counterexample
  below goes out as it came.)
\<close>

theorem convertAndProxy_getElementScreenshot:
  assumes "downstreamProtocol s = MJSONWP"
  shows "convertAndProxy E ''getElementScreenshot'' (p @ ''/session/abc/element/123/screenshot'')
       method body s =
     (settled (proxyFunc E (calls s) (p @ ''/session/abc/screenshot/123'', method, body)),
      s\<lparr> calls := calls s @ [(p @ ''/session/abc/screenshot/123'', method, body)] \<rparr>)"
proof -
  have "jsonwpConverter screenshot_rule ((p @ ''/session/abc'') @ ''/element/'' @ ''123'' @ ''/screenshot'')
      = (p @ ''/session/abc'') @ ''/screenshot/'' @ ''123''"
    by (rule jsonwpConverter_screenshot) simp_all
  then have conv: "jsonwpConverter screenshot_rule (p @ ''/session/abc/element/123/screenshot'') =
      p @ ''/session/abc/screenshot/123''" by simp
  have "rewriteUrl COMMAND_URLS_CONFLICTS MJSONWP ''getElementScreenshot''
      (p @ ''/session/abc/element/123/screenshot'') = Some (p @ ''/session/abc/screenshot/123'')"
    unfolding rewriteUrl_screenshot conv by simp
  then show ?thesis
    using assms by (simp add: convertAndProxy_def return_await_proxyFunc_eq)
qed

theorem convertAndProxy_getElementScreenshot_witness:
  "convertAndProxy example_env ''getElementScreenshot''
     ''http://localhost:4723/wd/hub/session/abc/element/123/screenshot'' ''GET'' JNull
     \<lparr> downstreamProtocol = MJSONWP, calls = [] \<rparr> =
   (Inr (Some \<lparr> statusCode = 200 \<rparr>, JNum 0),
    \<lparr> downstreamProtocol = MJSONWP,
      calls = [(''http://localhost:4723/wd/hub/session/abc/screenshot/123'', ''GET'', JNull)] \<rparr>)"
  using convertAndProxy_getElementScreenshot [of "\<lparr> downstreamProtocol = MJSONWP, calls = [] \<rparr>"
      example_env "''http://localhost:4723/wd/hub''" "''GET''" JNull]
  by (simp add: example_env_def settled_def)

theorem convertAndProxy_getElementScreenshot_W3C_counterexample:
  "convertAndProxy example_env ''getElementScreenshot''
     ''http://localhost:4723/wd/hub/session/abc/element/123/screenshot'' ''GET'' JNull
     \<lparr> downstreamProtocol = W3C, calls = [] \<rparr> =
   (Inr (Some \<lparr> statusCode = 200 \<rparr>, JNum 0),
    \<lparr> downstreamProtocol = W3C,
      calls = [(''http://localhost:4723/wd/hub/session/abc/element/123/screenshot'', ''GET'', JNull)] \<rparr>)
   \<and> ''http://localhost:4723/wd/hub/session/abc/element/123/screenshot''
       \<noteq> ''http://localhost:4723/wd/hub/session/abc/screenshot/123''"
  by (simp add: convertAndProxy_def rewriteUrl_screenshot screenshot_rule_def
      re_screenshot_def startsWith_def return_await_proxyFunc_eq example_env_def settled_def)

text \<open>
  Claim C2. Timeout fan-out against DialectA (\<open>MJSONWP\<close>): when the \<open>k\<close>-th transport
  call over the produced request objects is the first to answer with a status code of 400
  or more, \<open>proxySetTimeouts\<close> returns that answer as it is, and the transport has been
  sent exactly the first \<open>k\<close> requests, in order: no later request and no compensating
  call.
\<close>

theorem proxySetTimeouts_stops_at_failure:
  assumes "downstreamProtocol s = MJSONWP"
    and "getTimeoutRequestObjects E s body = Inr objs"
    and "0 < k" and "k \<le> length objs"
    and "\<forall>i < k - 1. \<exists>r b. answer E s url method objs i = Inr (r, b) \<and> statusCode r < 400"
    and "answer E s url method objs (k - 1) = Inr (r, b)" and "statusCode r \<ge> 400"
  shows "proxySetTimeouts E url method body s =
     (Inr (Some r, b), s\<lparr> calls := calls s @ requests url method (take k objs) \<rparr>)"
proof -
  from assms(3,4) have "k - 1 < length objs" and "Suc (k - 1) = k" by simp_all
  with loop_stops_at_failure [OF assms(1) \<open>k - 1 < length objs\<close> assms(5,6,7),
      of "(None, JUndefined)"]
  show ?thesis by (simp add: proxySetTimeouts_def assms(2))
qed

theorem proxySetTimeouts_stops_at_failure_witness:
  "proxySetTimeouts example_env ''/session/abc/timeouts'' ''POST''
     (JObj [(''script'', JStr ''1000''), (''pageLoad'', JStr ''2000.5''),
            (''implicit'', JStr ''3000'')])
     \<lparr> downstreamProtocol = MJSONWP, calls = [] \<rparr> =
   (Inr (Some \<lparr> statusCode = 400 \<rparr>, JNum 1),
    \<lparr> downstreamProtocol = MJSONWP,
      calls = [(''/session/abc/timeouts'', ''POST'',
                  JObj [(''type'', JStr ''script''), (''ms'', JStr ''1000'')]),
               (''/session/abc/timeouts'', ''POST'',
                  JObj [(''type'', JStr ''page load''), (''ms'', JStr ''2000.5'')])] \<rparr>)"
proof -
  let ?s = "\<lparr> downstreamProtocol = MJSONWP, calls = [] \<rparr> :: nat state"
  let ?body = "JObj [(''script'', JStr ''1000''), (''pageLoad'', JStr ''2000.5''),
                     (''implicit'', JStr ''3000'')] :: nat json"
  let ?objs = "[JObj [(''type'', JStr ''script''), (''ms'', JStr ''1000'')],
                JObj [(''type'', JStr ''page load''), (''ms'', JStr ''2000.5'')],
                JObj [(''type'', JStr ''implicit''), (''ms'', JStr ''3000'')]] :: nat json list"
  have objs: "getTimeoutRequestObjects example_env ?s ?body = Inr ?objs"
    by (simp add: getTimeoutRequestObjects_def has_def toPairs_def example_env_def
        re_timeout_value_def isDigit_def typeToJSONWP_def)
  have first: "\<forall>i < 2 - 1. \<exists>r b. answer example_env ?s ''/session/abc/timeouts'' ''POST'' ?objs i
      = Inr (r, b) \<and> statusCode r < 400"
    by (simp add: answer_def requests_def example_env_def)
  have second: "answer example_env ?s ''/session/abc/timeouts'' ''POST'' ?objs (2 - 1)
      = Inr (\<lparr> statusCode = 400 \<rparr>, JNum 1)"
    by (simp add: answer_def requests_def example_env_def)
  show ?thesis
    using proxySetTimeouts_stops_at_failure [OF _ objs _ _ first second]
    by (simp add: requests_def)
qed

text \<open>
  Claim C3 fails on the code. Against DialectA, for a body object that lacks the \<open>ms\<close>
  key or the \<open>type\<close> key, the claim has every entry whose value is not an unsigned
  integer or decimal dropped and the others turned into request objects. The filter
  converts each value to text with a template literal; for a value that has no string
  conversion (an object carrying a \<open>toString\<close> key of its own) the conversion throws
  \<open>TypeError\<close>, and \<open>getTimeoutRequestObjects\<close> throws with it instead of dropping the
  entry: no request object is produced, as for the body
  \<open>{script: "1000", implicit: {toString: 1}}\<close>. Where every value has a text the result
  is the one the claim gives (\<open>getTimeoutRequestObjects_MJSONWP\<close>).
\<close>

theorem getTimeoutRequestObjects_throws:
  assumes "downstreamProtocol s = MJSONWP"
    and "''ms'' \<notin> fst ` set kvs \<or> ''type'' \<notin> fst ` set kvs"
    and "(k, v) \<in> set kvs" and "ToString (Number_toString E) v = Inl e"
  shows "getTimeoutRequestObjects E s (JObj kvs) = Inl TypeError"
  using assms getTimeoutRequestObjects_no_text [of s "JObj kvs" k v E e]
  by (simp add: has_JObj toPairs_def)

theorem getTimeoutRequestObjects_throws_witness:
  "getTimeoutRequestObjects example_env \<lparr> downstreamProtocol = MJSONWP, calls = [] \<rparr>
     (JObj [(''script'', JStr ''1000''), (''implicit'', JObj [(''toString'', JNum 1)])]) =
   Inl TypeError"
  using getTimeoutRequestObjects_throws [of "\<lparr> downstreamProtocol = MJSONWP, calls = [] \<rparr>"
      "[(''script'', JStr ''1000''), (''implicit'', JObj [(''toString'', JNum 1)])]"
      "''implicit''" "JObj [(''toString'', JNum 1)]" example_env TypeError]
  by simp

text \<open>
  Claim C4, as amended. Against DialectB (\<open>W3C\<close>), for a body object with both the
  \<open>ms\<close> and the \<open>type\<close> key whose \<open>type\<close> value has a string conversion (every type
  name has), \<open>getTimeoutRequestObjects\<close> produces exactly one request object, with the
  single key mapped from \<open>type\<close> (the string \<open>page load\<close> maps to \<open>pageLoad\<close>, any
  other type to its text \<open>name\<close>, a type name to itself) and the value of \<open>ms\<close>. (The
  claim is for every such body; on a \<open>type\<close> value without a string conversion the
  computed key throws, as the counterexample below shows.)
\<close>

theorem getTimeoutRequestObjects_W3C:
  assumes "downstreamProtocol s = W3C"
    and "map_of kvs ''type'' = Some ty" and "map_of kvs ''ms'' = Some ms"
    and "ToString (Number_toString E) ty = Inr name"
  shows "getTimeoutRequestObjects E s (JObj kvs) =
     Inr [JObj [(if ty = JStr ''page load'' then ''pageLoad'' else name, ms)]]"
proof -
  from assms(2,3) have "''type'' \<in> fst ` set kvs" "''ms'' \<in> fst ` set kvs"
    by (auto dest!: map_of_SomeD intro: rev_image_eqI)
  then show ?thesis
    using assms
    by (simp add: getTimeoutRequestObjects_def has_JObj property_JObj typeToW3C_def)
qed

theorem getTimeoutRequestObjects_W3C_witness:
  "getTimeoutRequestObjects example_env \<lparr> downstreamProtocol = W3C, calls = [] \<rparr>
     (JObj [(''type'', JStr ''page load''), (''ms'', JNum 5000)]) =
   Inr [JObj [(''pageLoad'', JNum 5000)]]"
  using getTimeoutRequestObjects_W3C [of "\<lparr> downstreamProtocol = W3C, calls = [] \<rparr>"
      "[(''type'', JStr ''page load''), (''ms'', JNum 5000)]" "JStr ''page load''" "JNum 5000"
      example_env "''page load''"]
  by simp

theorem getTimeoutRequestObjects_W3C_counterexample:
  "getTimeoutRequestObjects example_env \<lparr> downstreamProtocol = W3C, calls = [] \<rparr>
     (JObj [(''type'', JObj [(''toString'', JNum 1)]), (''ms'', JNum 5000)]) = Inl TypeError"
  by (simp add: getTimeoutRequestObjects_def has_def property_def typeToW3C_def)

text \<open>
  Claim C5, as amended. For every rule of the table and every URL in the active
  dialect's own shape for a command of the rule (\<open>own_shape\<close>: the dialect's path at the
  end and, before it, neither \<open>/execute\<close> nor, for the synchronous shapes, \<open>async\<close>
  for the execute rule; an element id other than \<open>screenshot\<close> and no
  \<open>/screenshot/\<close> in a DialectB URL for the screenshot rule; anything for the window
  rule), the dialect's transform returns the URL unchanged, and \<open>convertAndProxy\<close>
  sends the original \<open>(url, method, body)\<close> to the transport, in one call.
\<close>

theorem convertAndProxy_own_shape:
  assumes "own_shape (downstreamProtocol s) commandName url"
  shows "(\<forall>r \<in> set COMMAND_URLS_CONFLICTS. commandName \<in> set (commandNames r) \<longrightarrow>
            converter (downstreamProtocol s) r url = url)
     \<and> convertAndProxy E commandName url method body s =
         (settled (proxyFunc E (calls s) (url, method, body)),
          s\<lparr> calls := calls s @ [(url, method, body)] \<rparr>)"
proof
  show fixed: "\<forall>r \<in> set COMMAND_URLS_CONFLICTS. commandName \<in> set (commandNames r) \<longrightarrow>
      converter (downstreamProtocol s) r url = url"
    by (rule own_shape_fixed [OF assms])
  have "rewriteUrl COMMAND_URLS_CONFLICTS (downstreamProtocol s) commandName url = None"
    by (rule rewriteUrl_fixed [OF fixed])
  then show "convertAndProxy E commandName url method body s =
      (settled (proxyFunc E (calls s) (url, method, body)),
       s\<lparr> calls := calls s @ [(url, method, body)] \<rparr>)"
    using own_shape_command [OF assms] by (simp add: convertAndProxy_def return_await_proxyFunc_eq)
qed

theorem convertAndProxy_own_shape_witness:
  "converter W3C execute_rule ''/wd/hub/session/abc/execute/sync'' = ''/wd/hub/session/abc/execute/sync''
   \<and> convertAndProxy example_env ''execute'' ''/wd/hub/session/abc/execute/sync'' ''POST''
       (JObj [(''script'', JStr ''return 1''), (''args'', JArr [])])
       \<lparr> downstreamProtocol = W3C, calls = [] \<rparr> =
     (Inr (Some \<lparr> statusCode = 200 \<rparr>, JNum 0),
      \<lparr> downstreamProtocol = W3C,
        calls = [(''/wd/hub/session/abc/execute/sync'', ''POST'',
                  JObj [(''script'', JStr ''return 1''), (''args'', JArr [])])] \<rparr>)"
proof -
  have "\<not> str_includes ''/wd/hub/session/abc'' ''/execute''"
    and "\<not> str_includes ''/wd/hub/session/abc'' ''async''"
    by (simp_all add: startsWith_def)
  then have "own_shape W3C ''execute'' (''/wd/hub/session/abc'' @ ''/execute/sync'')"
    by (intro own_shape.execute_sync_B) simp_all
  then have shape: "own_shape (downstreamProtocol \<lparr> downstreamProtocol = W3C, calls = [] :: nat request list \<rparr>)
      ''execute'' ''/wd/hub/session/abc/execute/sync''"
    by simp
  show ?thesis
    using convertAndProxy_own_shape [OF shape, of example_env "''POST''"
        "JObj [(''script'', JStr ''return 1''), (''args'', JArr [])]"]
    by (simp add: table_ball commandNames_simps example_env_def settled_def)
qed

theorem convertAndProxy_own_shape_counterexample:
  "w3cConverter execute_rule ''/wd/hub/session/async-1/execute/sync'' =
     ''/wd/hub/session/async-1/execute/async''
   \<and> convertAndProxy example_env ''execute'' ''/wd/hub/session/async-1/execute/sync'' ''POST''
       (JObj [(''script'', JStr ''return 1''), (''args'', JArr [])])
       \<lparr> downstreamProtocol = W3C, calls = [] \<rparr> =
     (Inr (Some \<lparr> statusCode = 200 \<rparr>, JNum 0),
      \<lparr> downstreamProtocol = W3C,
        calls = [(''/wd/hub/session/async-1/execute/async'', ''POST'',
                  JObj [(''script'', JStr ''return 1''), (''args'', JArr [])])] \<rparr>)"
proof -
  have conv: "w3cConverter execute_rule ''/wd/hub/session/async-1/execute/sync'' =
      ''/wd/hub/session/async-1/execute/async''"
    by (simp add: execute_rule_def re_execute_def startsWith_def lineTerminator_def)
  have "rewriteUrl COMMAND_URLS_CONFLICTS W3C ''execute'' ''/wd/hub/session/async-1/execute/sync'' =
      Some ''/wd/hub/session/async-1/execute/async''"
    by (simp add: COMMAND_URLS_CONFLICTS_def commandNames_simps conv)
  then show ?thesis
    by (simp add: conv convertAndProxy_def return_await_proxyFunc_eq example_env_def settled_def)
qed

text \<open>
  Claim C6 fails on the code. With DialectB active and the body
  \<open>{"name": {"toString": 1}}\<close>, the message of \<open>log.debug\<close> converts the value of
  \<open>name\<close> to text before the transport is called; the conversion throws \<open>TypeError\<close>,
  so \<open>proxySetWindow\<close> rejects and no transport call is made. Where the message can be
  built, and where no field is reassigned, the call goes out as the claim says
  (\<open>proxySetWindow_forwards\<close>, \<open>proxySetWindow_opaque\<close>).
\<close>

theorem proxySetWindow_rejects_unprintable_name:
  "proxySetWindow example_env ''/wd/hub/session/abc/window'' ''POST''
     (JObj [(''name'', JObj [(''toString'', JNum 1)])])
     \<lparr> downstreamProtocol = W3C, calls = [] \<rparr> =
   (Inl TypeError, \<lparr> downstreamProtocol = W3C, calls = [] \<rparr>)"
  by (simp add: proxySetWindow_def Let_def example_env_def isPlainObject_def has_def property_def)

text \<open>
  Claim C7. While the dialect is unset, \<open>convertAndProxy\<close> calls the transport exactly
  once, with \<open>(url, method, body)\<close> unchanged, whatever the command, and returns what
  that call gives.
\<close>

theorem convertAndProxy_Unset:
  assumes "downstreamProtocol s = Unset"
  shows "convertAndProxy E commandName url method body s =
     (settled (proxyFunc E (calls s) (url, method, body)),
      s\<lparr> calls := calls s @ [(url, method, body)] \<rparr>)"
  using assms by (simp add: convertAndProxy_def return_await_proxyFunc_eq)

theorem convertAndProxy_Unset_witness:
  "convertAndProxy example_env ''timeouts'' ''/session/abc/timeouts'' ''POST''
     (JObj [(''implicit'', JNum 1000)]) (constructor []) =
   (Inr (Some \<lparr> statusCode = 200 \<rparr>, JNum 0),
    \<lparr> downstreamProtocol = Unset,
      calls = [(''/session/abc/timeouts'', ''POST'', JObj [(''implicit'', JNum 1000)])] \<rparr>)"
  using convertAndProxy_Unset [of "constructor []" example_env "''timeouts''"
      "''/session/abc/timeouts''" "''POST''" "JObj [(''implicit'', JNum 1000)]"]
  by (simp add: constructor_def example_env_def settled_def)

text \<open>
  Claim C8. Execution of the timeout fan-out, for the request objects \<open>objs\<close> that
  \<open>getTimeoutRequestObjects\<close> produced: when the dialect is not DialectA there is a
  first object, the transport is called exactly once, with it, and that call's result is
  returned; when the dialect is DialectA and every call in the sequence answers with a
  status code below 400, there is one call per object, in order, and the result is the
  last call's.
\<close>

theorem proxySetTimeouts_calls:
  assumes "getTimeoutRequestObjects E s body = Inr objs"
  shows "(downstreamProtocol s \<noteq> MJSONWP \<longrightarrow>
            objs \<noteq> [] \<and>
            proxySetTimeouts E url method body s =
              (settled (answer E s url method objs 0),
               s\<lparr> calls := calls s @ requests url method (take 1 objs) \<rparr>))
       \<and> (downstreamProtocol s = MJSONWP \<and>
            (\<forall>i < length objs. \<exists>r b. answer E s url method objs i = Inr (r, b)
                                     \<and> statusCode r < 400) \<longrightarrow>
            proxySetTimeouts E url method body s =
              (if objs = [] then Inr (None, JUndefined)
               else settled (answer E s url method objs (length objs - 1)),
               s\<lparr> calls := calls s @ requests url method objs \<rparr>))"
proof (intro conjI impI)
  assume other: "downstreamProtocol s \<noteq> MJSONWP"
  with assms obtain obj where obj: "objs = [obj]"
    using getTimeoutRequestObjects_single by blast
  then show "objs \<noteq> []" by simp
  show "proxySetTimeouts E url method body s =
      (settled (answer E s url method objs 0),
       s\<lparr> calls := calls s @ requests url method (take 1 objs) \<rparr>)"
    using loop_other_protocol [OF other, of E url "method" obj "[]" "(None, JUndefined)"]
    by (simp add: proxySetTimeouts_def assms obj answer_0 requests_def)
next
  assume "downstreamProtocol s = MJSONWP \<and>
      (\<forall>i < length objs. \<exists>r b. answer E s url method objs i = Inr (r, b) \<and> statusCode r < 400)"
  then show "proxySetTimeouts E url method body s =
      (if objs = [] then Inr (None, JUndefined)
       else settled (answer E s url method objs (length objs - 1)),
       s\<lparr> calls := calls s @ requests url method objs \<rparr>)"
    using loop_all_succeed [of s objs E url "method" "(None, JUndefined)"]
    by (simp add: proxySetTimeouts_def assms)
qed

theorem proxySetTimeouts_calls_witness:
  "proxySetTimeouts example_env ''/session/abc/timeouts'' ''POST''
     (JObj [(''type'', JStr ''page load''), (''ms'', JNum 5000)])
     \<lparr> downstreamProtocol = W3C, calls = [] \<rparr> =
   (Inr (Some \<lparr> statusCode = 200 \<rparr>, JNum 0),
    \<lparr> downstreamProtocol = W3C,
      calls = [(''/session/abc/timeouts'', ''POST'', JObj [(''pageLoad'', JNum 5000)])] \<rparr>)
   \<and> proxySetTimeouts example_env ''/session/abc/timeouts'' ''POST''
     (JObj [(''script'', JNum 1000), (''pageLoad'', JStr ''2000.5'')])
     \<lparr> downstreamProtocol = MJSONWP,
       calls = [(''/session'', ''POST'', JNull), (''/session/abc/url'', ''GET'', JNull)] \<rparr> =
   (Inr (Some \<lparr> statusCode = 200 \<rparr>, JNum 3),
    \<lparr> downstreamProtocol = MJSONWP,
      calls = [(''/session'', ''POST'', JNull), (''/session/abc/url'', ''GET'', JNull),
               (''/session/abc/timeouts'', ''POST'',
                  JObj [(''type'', JStr ''script''), (''ms'', JNum 1000)]),
               (''/session/abc/timeouts'', ''POST'',
                  JObj [(''type'', JStr ''page load''), (''ms'', JStr ''2000.5'')])] \<rparr>)"
proof -
  let ?u = "''/session/abc/timeouts''"
  let ?s1 = "\<lparr> downstreamProtocol = W3C, calls = [] \<rparr> :: nat state"
  let ?b1 = "JObj [(''type'', JStr ''page load''), (''ms'', JNum 5000)] :: nat json"
  let ?s2 = "\<lparr> downstreamProtocol = MJSONWP,
       calls = [(''/session'', ''POST'', JNull), (''/session/abc/url'', ''GET'', JNull)] \<rparr>
       :: nat state"
  let ?b2 = "JObj [(''script'', JNum 1000), (''pageLoad'', JStr ''2000.5'')] :: nat json"
  let ?objs2 = "[JObj [(''type'', JStr ''script''), (''ms'', JNum 1000)],
                 JObj [(''type'', JStr ''page load''), (''ms'', JStr ''2000.5'')]] :: nat json list"
  have objs1: "getTimeoutRequestObjects example_env ?s1 ?b1 = Inr [JObj [(''pageLoad'', JNum 5000)]]"
    by (simp add: getTimeoutRequestObjects_def has_def property_def typeToW3C_def)
  have dec: "decimal 1000 = ''1000''" by code_simp
  have objs2: "getTimeoutRequestObjects example_env ?s2 ?b2 = Inr ?objs2"
    by (simp add: getTimeoutRequestObjects_def has_def toPairs_def example_env_def dec
        re_timeout_value_def isDigit_def typeToJSONWP_def)
  have all: "\<forall>i < length ?objs2. \<exists>r b. answer example_env ?s2 ?u ''POST'' ?objs2 i = Inr (r, b)
      \<and> statusCode r < 400"
    by (simp add: answer_def requests_def example_env_def All_less_Suc)
  show ?thesis
    using proxySetTimeouts_calls [OF objs1, of ?u "''POST''"]
      proxySetTimeouts_calls [OF objs2, of ?u "''POST''"] all
    by (simp add: answer_def requests_def example_env_def settled_def)
qed

text \<open>
  Claim C9 fails on the code, by the defect of claim C3. Against DialectA, in the body
  \<open>{implicit: {toString: 1}}\<close> no entry's value has a text that is an unsigned integer
  or decimal, so the claim has \<open>getTimeoutRequestObjects\<close> return the empty list and
  \<open>proxySetTimeouts\<close> return the pair of \<open>undefined\<close>. The filter throws \<open>TypeError\<close> on
  the value, and \<open>proxySetTimeouts\<close> rejects; no transport call is made. Where every
  value has a text and none matches, the outcome is the claim's
  (\<open>proxySetTimeouts_nothing_to_send\<close>).
\<close>

theorem proxySetTimeouts_throws:
  assumes "downstreamProtocol s = MJSONWP"
    and "\<not> has body ''ms'' \<or> \<not> has body ''type''"
    and "(k, v) \<in> set (toPairs body)" and "ToString (Number_toString E) v = Inl e"
  shows "proxySetTimeouts E url method body s = (Inl TypeError, s)"
  using getTimeoutRequestObjects_no_text [OF assms]
  by (simp add: proxySetTimeouts_def)

theorem proxySetTimeouts_throws_witness:
  "ToString (Number_toString example_env) (JObj [(''toString'', JNum 1)]) = Inl TypeError
   \<and> proxySetTimeouts example_env ''/session/abc/timeouts'' ''POST''
       (JObj [(''implicit'', JObj [(''toString'', JNum 1)])])
       \<lparr> downstreamProtocol = MJSONWP, calls = [] \<rparr> =
     (Inl TypeError, \<lparr> downstreamProtocol = MJSONWP, calls = [] \<rparr>)"
  using proxySetTimeouts_throws [of "\<lparr> downstreamProtocol = MJSONWP, calls = [] \<rparr>"
      "JObj [(''implicit'', JObj [(''toString'', JNum 1)])]"
      "''implicit''" "JObj [(''toString'', JNum 1)]" example_env TypeError
      "''/session/abc/timeouts''" "''POST''"]
  by (simp add: has_def toPairs_def)

text \<open>
  Claim C10. Frame condition: \<open>convertAndProxy\<close>, \<open>proxySetTimeouts\<close> and
  \<open>proxySetWindow\<close> leave the active dialect as it was before the call, on every path,
  errors included (\<open>getTimeoutRequestObjects\<close> only reads the state and returns none);
  the setter is what changes it.
\<close>

theorem downstreamProtocol_frame:
  "downstreamProtocol (snd (convertAndProxy E commandName url method body s)) = downstreamProtocol s
   \<and> downstreamProtocol (snd (proxySetTimeouts E url method body s)) = downstreamProtocol s
   \<and> downstreamProtocol (snd (proxySetWindow E url method body s)) = downstreamProtocol s
   \<and> downstreamProtocol (set_downstreamProtocol v s) = v"
  by (simp add: convertAndProxy_frame proxySetTimeouts_frame proxySetWindow_frame
      set_downstreamProtocol_def)

end
